theory Spec2Isabelle
  imports Complex_Main "HOL-Library.AList"
begin

section \<open>Data model of the review service's WebSocket manager\<close>

text \<open>
  The development embeds \<^verbatim>\<open>backend/review-service/app/websocket_manager.py\<close> and the
  handshake of \<^verbatim>\<open>websocket_endpoint\<close> in \<^verbatim>\<open>backend/review-service/app/main.py\<close>.

  A \<^verbatim>\<open>WebSocket\<close> object is hashed by identity and a user is keyed by its UUID, so both
  are opaque handles. A \<^verbatim>\<open>datetime\<close> is represented by the float that \<^verbatim>\<open>.timestamp()\<close>
  returns for it, POSIX seconds; the sweep compares these floats. The one arithmetic
  operation on them, a float minus an integer, is \<^verbatim>\<open>float_sub\<close> of the environment below.
\<close>

type_synonym ws = nat
type_synonym uid = nat
type_synonym time = real

datatype UserRole = ADMIN | REVIEWER | OPERATOR

text \<open>\<^verbatim>\<open>UserRole\<close> is a \<^verbatim>\<open>str\<close> enum: a member compares equal to its value.\<close>

fun role_value :: "UserRole \<Rightarrow> string" where
  "role_value ADMIN = ''admin''"
| "role_value REVIEWER = ''reviewer''"
| "role_value OPERATOR = ''operator''"

record User =
  user_id :: uid
  username :: string
  role :: UserRole
  is_active :: bool

record Metadata =
  connected_at :: time
  last_heartbeat :: time

text \<open>
  The three dictionaries of \<^verbatim>\<open>ConnectionManager.__init__\<close>. A Python \<^verbatim>\<open>dict\<close> keeps
  insertion order, replaces a value in place and appends a new key at the end: that is
  \<^const>\<open>AList.update\<close> on an association list, and \<^verbatim>\<open>del\<close>/\<^verbatim>\<open>pop\<close> is
  \<^const>\<open>AList.delete\<close>. A \<^verbatim>\<open>Set[WebSocket]\<close> is a list without repetitions; its order
  stands for the (unspecified) iteration order of the Python set.
\<close>

record ConnectionManager =
  active_connections :: "(uid \<times> ws list) list"
  connection_users :: "(ws \<times> User) list"
  connection_metadata :: "(ws \<times> Metadata) list"

definition init :: ConnectionManager where
  "init = \<lparr>active_connections = [], connection_users = [], connection_metadata = []\<rparr>"

definition set_add :: "ws \<Rightarrow> ws list \<Rightarrow> ws list" where
  "set_add w conns = (if w \<in> set conns then conns else conns @ [w])"

definition discard :: "ws \<Rightarrow> ws list \<Rightarrow> ws list" where
  "discard w conns = removeAll w conns"

subsection \<open>Messages, exceptions and effects\<close>

text \<open>Values that occur in the message dictionaries.\<close>

datatype pyval =
    PStr string
  | PUuid uid
  | PBool bool
  | PFloat real
  | PTime time
  | PNone
  | PDict "(string \<times> pyval) list"

type_synonym message = "(string \<times> pyval) list"

record WebSocketMessage =
  msg_type :: string
  msg_data :: "(string \<times> pyval) list"
  msg_timestamp :: time

datatype exn =
    KeyError string
  | ValidationError
  | TransportError
  | AcceptError
  | RuntimeError string
  | HTTPException nat
  | OverflowError
  | CancelledError

text \<open>
  \<^verbatim>\<open>AcceptError\<close> stands for whatever \<^verbatim>\<open>websocket.accept()\<close> raises, and
  \<^verbatim>\<open>TransportError\<close> for an exception of the \<^verbatim>\<open>Exception\<close> hierarchy raised by a write.
  \<^verbatim>\<open>except Exception\<close> catches the subclasses of \<^verbatim>\<open>Exception\<close>. The cancellation of a
  task, \<^verbatim>\<open>asyncio.CancelledError\<close>, is raised at an \<^verbatim>\<open>await\<close> and derives from
  \<^verbatim>\<open>BaseException\<close> only; a bare \<^verbatim>\<open>except:\<close> catches it too.
\<close>

fun is_Exception :: "exn \<Rightarrow> bool" where
  "is_Exception CancelledError = False"
| "is_Exception _ = True"

text \<open>
  What the manager does to the sockets: \<^verbatim>\<open>accept()\<close>, \<^verbatim>\<open>send_text(...)\<close> with whether the
  write went through, and \<^verbatim>\<open>close(code, reason)\<close>.
\<close>

datatype event =
    Accept ws
  | Send ws WebSocketMessage bool
  | Close ws nat string

text \<open>
  What one call observes of the outside: the clock (one reading per call stands for the
  successive \<^verbatim>\<open>datetime.now()\<close> of that call); for each socket whether \<^verbatim>\<open>accept\<close>
  returns or raises; for each socket what \<^verbatim>\<open>send_text\<close> raises, if anything; and
  \<^verbatim>\<open>float_sub x n\<close>, the float that Python computes for \<^verbatim>\<open>x - n\<close> from a float
  \<^verbatim>\<open>x\<close> and an integer \<^verbatim>\<open>n\<close> that converts to a float. Its rounding is left open:
  what is proved holds whatever this function is. (For the timestamp of a
  \<^verbatim>\<open>datetime\<close> and an integer that converts, the result is a finite float.)
\<close>

record Env =
  now :: time
  accept_ok :: "ws \<Rightarrow> bool"
  send_raises :: "ws \<Rightarrow> exn option"
  float_sub :: "real \<Rightarrow> int \<Rightarrow> real"

text \<open>
  An integer converts to a float, rounding to the nearest double, unless the rounded
  value leaves the double range; then the conversion raises \<^verbatim>\<open>OverflowError\<close>.
\<close>

definition double_overflow :: "int \<Rightarrow> bool" where
  "double_overflow n \<longleftrightarrow> 2 ^ 1024 - 2 ^ 970 \<le> \<bar>n\<bar>"

text \<open>
  The result of a coroutine: the exception that left it (if any), the manager as it is
  then, and the effects on the sockets in order.
\<close>

type_synonym outcome = "exn option \<times> ConnectionManager \<times> event list"

section \<open>ConnectionManager\<close>

subsection \<open>disconnect\<close>

definition disconnect :: "ws \<Rightarrow> ConnectionManager \<Rightarrow> ConnectionManager" where
  "disconnect websocket m =
    (let ac =
       (case map_of (connection_users m) websocket of
          None \<Rightarrow> active_connections m
        | Some user \<Rightarrow>
            (case map_of (active_connections m) (user_id user) of
               None \<Rightarrow> active_connections m
             | Some conns \<Rightarrow>
                 (if discard websocket conns = []
                  then AList.delete (user_id user) (active_connections m)
                  else AList.update (user_id user) (discard websocket conns)
                         (active_connections m))))
     in \<lparr>active_connections = ac,
         connection_users = AList.delete websocket (connection_users m),
         connection_metadata = AList.delete websocket (connection_metadata m)\<rparr>)"

subsection \<open>send_personal_message\<close>

text \<open>
  The body of the \<^verbatim>\<open>try\<close>: \<^verbatim>\<open>message["type"]\<close> and \<^verbatim>\<open>message["data"]\<close> raise
  \<^verbatim>\<open>KeyError\<close> on a missing key, the \<^verbatim>\<open>WebSocketMessage\<close> model wants a string and a
  dictionary, and the write raises when the transport does.
\<close>

definition make_ws_message :: "message \<Rightarrow> time \<Rightarrow> exn + WebSocketMessage" where
  "make_ws_message message t =
    (case map_of message ''type'' of
       None \<Rightarrow> Inl (KeyError ''type'')
     | Some ty \<Rightarrow>
         (case map_of message ''data'' of
            None \<Rightarrow> Inl (KeyError ''data'')
          | Some d \<Rightarrow>
              (case (ty, d) of
                 (PStr s, PDict kv) \<Rightarrow>
                   Inr \<lparr>msg_type = s, msg_data = kv, msg_timestamp = t\<rparr>
               | _ \<Rightarrow> Inl ValidationError)))"

definition try_send :: "message \<Rightarrow> ws \<Rightarrow> Env \<Rightarrow> exn option \<times> event list" where
  "try_send message websocket env =
    (case make_ws_message message (now env) of
       Inl e \<Rightarrow> (Some e, [])
     | Inr ws_message \<Rightarrow>
         (case send_raises env websocket of
            None \<Rightarrow> (None, [Send websocket ws_message True])
          | Some e \<Rightarrow> (Some e, [Send websocket ws_message False])))"

text \<open>
  \<^verbatim>\<open>except Exception\<close>: an exception of that hierarchy is logged and the socket
  disconnected; any other exception leaves the coroutine with nothing done.
\<close>

definition send_personal_message ::
  "message \<Rightarrow> ws \<Rightarrow> Env \<Rightarrow> ConnectionManager \<Rightarrow> outcome" where
  "send_personal_message message websocket env m =
    (case try_send message websocket env of
       (None, evs) \<Rightarrow> (None, m, evs)
     | (Some e, evs) \<Rightarrow>
         (if is_Exception e then (None, disconnect websocket m, evs)
          else (Some e, m, evs)))"

subsection \<open>connect\<close>

definition welcome_message :: "User \<Rightarrow> time \<Rightarrow> message" where
  "welcome_message user t =
    [(''type'', PStr ''connection_established''),
     (''data'', PDict [(''user_id'', PUuid (user_id user)),
                       (''username'', PStr (username user)),
                       (''connected_at'', PTime t)])]"

text \<open>
  The assignments of \<^verbatim>\<open>connect\<close> between \<^verbatim>\<open>accept()\<close> and the welcome message: the
  user's set is created if absent, the socket is added to it, and the reverse lookup and
  the metadata of the socket are overwritten.
\<close>

definition stored :: "ws \<Rightarrow> User \<Rightarrow> time \<Rightarrow> ConnectionManager \<Rightarrow> ConnectionManager" where
  "stored websocket user t m =
    \<lparr>active_connections =
       (case map_of (active_connections m) (user_id user) of
          None \<Rightarrow> AList.update (user_id user) [websocket] (active_connections m)
        | Some conns \<Rightarrow>
            AList.update (user_id user) (set_add websocket conns) (active_connections m)),
     connection_users = AList.update websocket user (connection_users m),
     connection_metadata =
       AList.update websocket \<lparr>connected_at = t, last_heartbeat = t\<rparr>
         (connection_metadata m)\<rparr>"

text \<open>\<^verbatim>\<open>accept()\<close> comes first: when it raises, nothing has been stored.\<close>

definition connect :: "ws \<Rightarrow> User \<Rightarrow> Env \<Rightarrow> ConnectionManager \<Rightarrow> outcome" where
  "connect websocket user env m =
    (if \<not> accept_ok env websocket then (Some AcceptError, m, [])
     else
       (case send_personal_message (welcome_message user (now env)) websocket env
               (stored websocket user (now env) m) of
          (e, m2, evs) \<Rightarrow> (e, m2, Accept websocket # evs)))"

subsection \<open>send_user_message\<close>

text \<open>
  The loop over \<^verbatim>\<open>self.active_connections[user_id].copy()\<close>. The last component is
  \<^verbatim>\<open>disconnected_connections\<close>: a socket enters it when \<^verbatim>\<open>send_personal_message\<close>
  raises an exception that \<^verbatim>\<open>except Exception\<close> catches. Any other exception leaves
  the loop and the coroutine.
\<close>

fun send_user_loop ::
  "message \<Rightarrow> ws list \<Rightarrow> Env \<Rightarrow> ConnectionManager \<Rightarrow>
     exn option \<times> ConnectionManager \<times> event list \<times> ws list" where
  "send_user_loop message [] env m = (None, m, [], [])"
| "send_user_loop message (websocket # rest) env m =
    (case send_personal_message message websocket env m of
       (None, m1, evs1) \<Rightarrow>
         (case send_user_loop message rest env m1 of
            (e, m2, evs2, disc) \<Rightarrow> (e, m2, evs1 @ evs2, disc))
     | (Some x, m1, evs1) \<Rightarrow>
         (if is_Exception x
          then (case send_user_loop message rest env m1 of
                  (e, m2, evs2, disc) \<Rightarrow> (e, m2, evs1 @ evs2, set_add websocket disc))
          else (Some x, m1, evs1, [])))"

definition send_user_message ::
  "message \<Rightarrow> uid \<Rightarrow> Env \<Rightarrow> ConnectionManager \<Rightarrow> outcome" where
  "send_user_message message u env m =
    (case map_of (active_connections m) u of
       None \<Rightarrow> (None, m, [])
     | Some conns \<Rightarrow>
         (case send_user_loop message conns env m of
            (Some x, m1, evs, disc) \<Rightarrow> (Some x, m1, evs)
          | (None, m1, evs, disc) \<Rightarrow> (None, fold disconnect disc m1, evs)))"

subsection \<open>send_role_message and broadcast_message\<close>

text \<open>
  \<^verbatim>\<open>for user_id, connections in self.active_connections.items()\<close> walks the live
  dictionary. Each step of a dictionary iterator first compares the size the dictionary
  has now with the size it had when the iteration began and raises \<^verbatim>\<open>RuntimeError\<close>
  when they differ; only then does it yield the entry at its position, or stop. The first
  argument lists the positions still to visit, the second is the size at the start.
\<close>

fun send_role_loop ::
  "nat list \<Rightarrow> nat \<Rightarrow> message \<Rightarrow> string \<Rightarrow> Env \<Rightarrow> ConnectionManager \<Rightarrow> outcome" where
  "send_role_loop [] used message r env m =
    (if length (active_connections m) \<noteq> used
     then (Some (RuntimeError ''dictionary changed size during iteration''), m, [])
     else (None, m, []))"
| "send_role_loop (i # rest) used message r env m =
    (if length (active_connections m) \<noteq> used
     then (Some (RuntimeError ''dictionary changed size during iteration''), m, [])
     else
       (case snd (active_connections m ! i) of
          [] \<Rightarrow> send_role_loop rest used message r env m
        | websocket # _ \<Rightarrow>
            (case map_of (connection_users m) websocket of
               None \<Rightarrow> send_role_loop rest used message r env m
             | Some user \<Rightarrow>
                 (if role_value (role user) = r
                  then
                    (case send_user_message message (fst (active_connections m ! i)) env m of
                       (Some e, m1, evs1) \<Rightarrow> (Some e, m1, evs1)
                     | (None, m1, evs1) \<Rightarrow>
                         (case send_role_loop rest used message r env m1 of
                            (e, m2, evs2) \<Rightarrow> (e, m2, evs1 @ evs2)))
                  else send_role_loop rest used message r env m))))"

definition send_role_message ::
  "message \<Rightarrow> string \<Rightarrow> Env \<Rightarrow> ConnectionManager \<Rightarrow> outcome" where
  "send_role_message message r env m =
    send_role_loop [0..<length (active_connections m)] (length (active_connections m))
      message r env m"

text \<open>\<^verbatim>\<open>broadcast_message\<close> iterates a copy of the keys.\<close>

fun broadcast_loop ::
  "uid list \<Rightarrow> message \<Rightarrow> Env \<Rightarrow> ConnectionManager \<Rightarrow> outcome" where
  "broadcast_loop [] message env m = (None, m, [])"
| "broadcast_loop (u # rest) message env m =
    (case send_user_message message u env m of
       (Some e, m1, evs1) \<Rightarrow> (Some e, m1, evs1)
     | (None, m1, evs1) \<Rightarrow>
         (case broadcast_loop rest message env m1 of
            (e, m2, evs2) \<Rightarrow> (e, m2, evs1 @ evs2)))"

definition broadcast_message :: "message \<Rightarrow> Env \<Rightarrow> ConnectionManager \<Rightarrow> outcome" where
  "broadcast_message message env m =
    broadcast_loop (map fst (active_connections m)) message env m"

subsection \<open>get_connected_users\<close>

record ConnectedUser =
  cu_user_id :: uid
  cu_username :: string
  cu_role :: UserRole
  connection_count :: nat
  cu_connected_at :: "time option"
  cu_last_heartbeat :: "time option"

text \<open>
  One pass over \<^verbatim>\<open>self.active_connections.items()\<close>. The user and the metadata are
  those of \<^verbatim>\<open>next(iter(connections))\<close>; \<^verbatim>\<open>metadata.get(...)\<close> yields \<^verbatim>\<open>None\<close> when the
  socket has no metadata.
\<close>

fun connected_users_loop ::
  "(uid \<times> ws list) list \<Rightarrow> ConnectionManager \<Rightarrow> ConnectedUser list" where
  "connected_users_loop [] m = []"
| "connected_users_loop ((u, conns) # rest) m =
    (case conns of
       [] \<Rightarrow> connected_users_loop rest m
     | websocket # _ \<Rightarrow>
         (case map_of (connection_users m) websocket of
            None \<Rightarrow> connected_users_loop rest m
          | Some user \<Rightarrow>
              \<lparr>cu_user_id = user_id user,
               cu_username = username user,
               cu_role = role user,
               connection_count = length conns,
               cu_connected_at =
                 map_option connected_at (map_of (connection_metadata m) websocket),
               cu_last_heartbeat =
                 map_option last_heartbeat (map_of (connection_metadata m) websocket)\<rparr>
              # connected_users_loop rest m))"

definition get_connected_users :: "ConnectionManager \<Rightarrow> ConnectedUser list" where
  "get_connected_users m = connected_users_loop (active_connections m) m"

subsection \<open>handle_heartbeat\<close>

definition heartbeat_ack :: "time \<Rightarrow> message" where
  "heartbeat_ack t =
    [(''type'', PStr ''heartbeat_ack''), (''data'', PDict [(''timestamp'', PTime t)])]"

definition handle_heartbeat :: "ws \<Rightarrow> Env \<Rightarrow> ConnectionManager \<Rightarrow> outcome" where
  "handle_heartbeat websocket env m =
    (case map_of (connection_metadata m) websocket of
       None \<Rightarrow> (None, m, [])
     | Some md \<Rightarrow>
         send_personal_message (heartbeat_ack (now env)) websocket env
           (m\<lparr>connection_metadata :=
                AList.update websocket (md\<lparr>last_heartbeat := now env\<rparr>)
                  (connection_metadata m)\<rparr>))"

subsection \<open>cleanup_stale_connections\<close>

text \<open>
  \<^verbatim>\<open>settings.websocket_heartbeat_interval\<close> is an integer number of seconds read from the
  environment (30 by default); it is the first argument. \<^verbatim>\<open>heartbeat_timeout\<close> is an
  integer, and \<^verbatim>\<open>datetime.now().timestamp() - heartbeat_timeout\<close> converts it to a
  float first, which raises \<^verbatim>\<open>OverflowError\<close> outside the double range.
\<close>

definition cutoff_time :: "int \<Rightarrow> Env \<Rightarrow> exn + time" where
  "cutoff_time websocket_heartbeat_interval env =
    (let heartbeat_timeout = websocket_heartbeat_interval * 2
     in if double_overflow heartbeat_timeout then Inl OverflowError
        else Inr (float_sub env (now env) heartbeat_timeout))"

text \<open>
  The first loop. Every metadata entry has a \<^verbatim>\<open>last_heartbeat\<close>, so the default of
  \<^verbatim>\<open>metadata.get\<close> is never used.
\<close>

definition stale_connections :: "time \<Rightarrow> ConnectionManager \<Rightarrow> ws list" where
  "stale_connections cutoff m =
    map fst (filter (\<lambda>(websocket, md). last_heartbeat md < cutoff) (connection_metadata m))"

text \<open>
  The second loop: each stale socket is disconnected and then closed with code 1000;
  whatever \<^verbatim>\<open>close\<close> raises is swallowed by the bare \<^verbatim>\<open>except:\<close>.
\<close>

fun cleanup_loop :: "ws list \<Rightarrow> ConnectionManager \<Rightarrow> ConnectionManager \<times> event list" where
  "cleanup_loop [] m = (m, [])"
| "cleanup_loop (websocket # rest) m =
    (case cleanup_loop rest (disconnect websocket m) of
       (m', evs) \<Rightarrow> (m', Close websocket 1000 ''Heartbeat timeout'' # evs))"

definition cleanup_stale_connections :: "int \<Rightarrow> Env \<Rightarrow> ConnectionManager \<Rightarrow> outcome" where
  "cleanup_stale_connections websocket_heartbeat_interval env m =
    (case cutoff_time websocket_heartbeat_interval env of
       Inl e \<Rightarrow> (Some e, m, [])
     | Inr cutoff \<Rightarrow>
         (case cleanup_loop (stale_connections cutoff m) m of
            (m', evs) \<Rightarrow> (None, m', evs)))"

section \<open>NotificationService\<close>

definition new_detection :: "uid \<Rightarrow> bool \<Rightarrow> real \<Rightarrow> time \<Rightarrow> message" where
  "new_detection detection_id is_anomaly confidence t =
    [(''type'', PStr ''new_detection''),
     (''data'', PDict [(''detection_id'', PUuid detection_id),
                       (''is_anomaly'', PBool is_anomaly),
                       (''confidence'', PFloat confidence),
                       (''timestamp'', PTime t)])]"

text \<open>Two \<^verbatim>\<open>send_role_message\<close> calls in a row; an exception of the first skips the second.\<close>

definition notify_new_detection ::
  "uid \<Rightarrow> bool \<Rightarrow> real \<Rightarrow> Env \<Rightarrow> ConnectionManager \<Rightarrow> outcome" where
  "notify_new_detection detection_id is_anomaly confidence env m =
    (let message = new_detection detection_id is_anomaly confidence (now env)
     in (case send_role_message message ''reviewer'' env m of
           (Some e, m1, evs1) \<Rightarrow> (Some e, m1, evs1)
         | (None, m1, evs1) \<Rightarrow>
             (case send_role_message message ''admin'' env m1 of
                (e, m2, evs2) \<Rightarrow> (e, m2, evs1 @ evs2))))"

definition review_completed :: "uid \<Rightarrow> uid \<Rightarrow> string \<Rightarrow> time \<Rightarrow> message" where
  "review_completed review_id detection_id verdict t =
    [(''type'', PStr ''review_completed''),
     (''data'', PDict [(''review_id'', PUuid review_id),
                       (''detection_id'', PUuid detection_id),
                       (''verdict'', PStr verdict),
                       (''timestamp'', PTime t)])]"

definition notify_review_completed ::
  "uid \<Rightarrow> uid \<Rightarrow> string \<Rightarrow> Env \<Rightarrow> ConnectionManager \<Rightarrow> outcome" where
  "notify_review_completed review_id detection_id verdict env m =
    broadcast_message (review_completed review_id detection_id verdict (now env)) env m"

text \<open>
  \<^verbatim>\<open>data or {}\<close> is the empty dictionary when \<^verbatim>\<open>data\<close> is \<^verbatim>\<open>None\<close>. The
  \<^verbatim>\<open>NotificationMessage\<close> built first is not used afterwards.
\<close>

definition system_alert ::
  "string \<Rightarrow> string \<Rightarrow> (string \<times> pyval) list option \<Rightarrow> time \<Rightarrow> message" where
  "system_alert alert_type text data t =
    [(''type'', PStr ''system_alert''),
     (''data'', PDict [(''alert_type'', PStr alert_type),
                       (''message'', PStr text),
                       (''data'', PDict (case data of None \<Rightarrow> [] | Some d \<Rightarrow> d)),
                       (''timestamp'', PTime t)])]"

definition notify_system_alert ::
  "string \<Rightarrow> string \<Rightarrow> (string \<times> pyval) list option \<Rightarrow> Env \<Rightarrow> ConnectionManager \<Rightarrow>
     outcome" where
  "notify_system_alert alert_type text data env m =
    send_role_message (system_alert alert_type text data (now env)) ''admin'' env m"

section \<open>The handshake of websocket_endpoint\<close>

text \<open>
  \<^verbatim>\<open>auth_client.verify_token\<close> decodes the token and asks the auth service; it catches
  every exception and returns a user or \<^verbatim>\<open>None\<close>. It is a parameter here.
\<close>

definition get_current_user :: "(string \<Rightarrow> User option) \<Rightarrow> string \<Rightarrow> exn + User option" where
  "get_current_user verify_token token =
    (if token = [] then Inl (HTTPException 401)
     else
       (case verify_token token of
          None \<Rightarrow> Inl (HTTPException 401)
        | Some user \<Rightarrow>
            (if \<not> is_active user then Inl (HTTPException 400) else Inr (Some user))))"

datatype handshake = Rejected nat string | Authenticated User

text \<open>
  The part of \<^verbatim>\<open>websocket_endpoint\<close> before \<^verbatim>\<open>manager.connect\<close>: \<^verbatim>\<open>Rejected code reason\<close>
  is \<^verbatim>\<open>websocket.close(code=code, reason=reason)\<close> followed by \<^verbatim>\<open>return\<close>. The token is
  an optional query parameter, and \<^verbatim>\<open>not token\<close> also holds of the empty string.
\<close>

definition websocket_endpoint ::
  "(string \<Rightarrow> User option) \<Rightarrow> string option \<Rightarrow> handshake" where
  "websocket_endpoint verify_token token =
    (case token of
       None \<Rightarrow> Rejected 4001 ''Missing authentication token''
     | Some t \<Rightarrow>
         (if t = [] then Rejected 4001 ''Missing authentication token''
          else
            (case get_current_user verify_token t of
               Inl e \<Rightarrow> Rejected 4001 ''Authentication failed''
             | Inr None \<Rightarrow> Rejected 4001 ''Invalid token''
             | Inr (Some user) \<Rightarrow> Authenticated user)))"

section \<open>The Registry invariant and sequences of calls\<close>

definition conns_of :: "ConnectionManager \<Rightarrow> uid \<Rightarrow> ws list" where
  "conns_of m u = (case map_of (active_connections m) u of None \<Rightarrow> [] | Some conns \<Rightarrow> conns)"

text \<open>
  The invariant as the specification words it: no user entry has an empty connection
  set, and every connection in a user's set has exactly one reverse-lookup entry, which
  names that user.
\<close>

definition registry_invariant :: "ConnectionManager \<Rightarrow> bool" where
  "registry_invariant m \<longleftrightarrow>
    (\<forall>(u, conns) \<in> set (active_connections m).
       conns \<noteq> [] \<and>
       (\<forall>w \<in> set conns.
          map (user_id \<circ> snd) (filter (\<lambda>(w', usr). w' = w) (connection_users m)) = [u]))"

text \<open>
  What the three dictionaries satisfy together: each is a dictionary (one entry per
  key), each connection set is a non-empty set whose sockets look up to a user with the
  key's id, every socket of the reverse lookup is in the set of its user, and the
  metadata has the keys of the reverse lookup.
\<close>

definition registry_wf :: "ConnectionManager \<Rightarrow> bool" where
  "registry_wf m \<longleftrightarrow>
    distinct (map fst (active_connections m)) \<and>
    distinct (map fst (connection_users m)) \<and>
    distinct (map fst (connection_metadata m)) \<and>
    (\<forall>(u, conns) \<in> set (active_connections m).
       conns \<noteq> [] \<and> distinct conns \<and>
       (\<forall>w \<in> set conns. map_option user_id (map_of (connection_users m) w) = Some u)) \<and>
    (\<forall>(w, usr) \<in> set (connection_users m). w \<in> set (conns_of m (user_id usr))) \<and>
    set (map fst (connection_metadata m)) = set (map fst (connection_users m))"

text \<open>A socket is unregistered when none of the three dictionaries mentions it.\<close>

definition unregistered :: "ConnectionManager \<Rightarrow> ws \<Rightarrow> bool" where
  "unregistered m w \<longleftrightarrow>
    map_of (connection_users m) w = None \<and>
    map_of (connection_metadata m) w = None \<and>
    (\<forall>(u, conns) \<in> set (active_connections m). w \<notin> set conns)"

datatype call = Register ws User Env | Unregister ws

fun step :: "call \<Rightarrow> ConnectionManager \<Rightarrow> ConnectionManager" where
  "step (Register w usr env) m = fst (snd (connect w usr env m))"
| "step (Unregister w) m = disconnect w m"

fun invariant_after_each :: "ConnectionManager \<Rightarrow> call list \<Rightarrow> bool" where
  "invariant_after_each m [] = True"
| "invariant_after_each m (c # cs) =
    (registry_invariant (step c m) \<and> invariant_after_each (step c m) cs)"

text \<open>
  A \<^verbatim>\<open>WebSocket\<close> of the framework accepts once: \<^verbatim>\<open>accept()\<close> raises on a socket
  that has been accepted before, and a registered socket has been accepted, by the
  \<^verbatim>\<open>connect\<close> that registered it. So in a call made on manager \<open>m\<close>, \<^verbatim>\<open>accept\<close> does
  not go through on any socket that \<open>m\<close> has registered.
\<close>

definition accepts_once :: "ConnectionManager \<Rightarrow> Env \<Rightarrow> bool" where
  "accepts_once m env \<longleftrightarrow> (\<forall>(w, usr) \<in> set (connection_users m). \<not> accept_ok env w)"

fun call_accepts_once :: "ConnectionManager \<Rightarrow> call \<Rightarrow> bool" where
  "call_accepts_once m (Register w usr env) = accepts_once m env"
| "call_accepts_once m (Unregister w) = True"

fun framework_sockets :: "ConnectionManager \<Rightarrow> call list \<Rightarrow> bool" where
  "framework_sockets m [] = True"
| "framework_sockets m (c # cs) = (call_accepts_once m c \<and> framework_sockets (step c m) cs)"

section \<open>Concrete users, environments and registries\<close>

definition alice :: User where
  "alice = \<lparr>user_id = 1, username = ''alice'', role = REVIEWER, is_active = True\<rparr>"

definition bob :: User where
  "bob = \<lparr>user_id = 2, username = ''bob'', role = REVIEWER, is_active = True\<rparr>"

definition always :: "ws \<Rightarrow> bool" where
  "always w = True"

definition all_but_7 :: "ws \<Rightarrow> bool" where
  "all_but_7 w = (w \<noteq> 7)"

definition never :: "ws \<Rightarrow> bool" where
  "never w = False"

definition no_failure :: "ws \<Rightarrow> exn option" where
  "no_failure w = None"

definition down_7 :: "ws \<Rightarrow> exn option" where
  "down_7 w = (if w = 7 then Some TransportError else None)"

definition cancelled_7 :: "ws \<Rightarrow> exn option" where
  "cancelled_7 w = (if w = 7 then Some CancelledError else None)"

text \<open>
  The concrete environments subtract exactly, as double arithmetic does at the small
  integral values they are used with.
\<close>

definition exact_sub :: "real \<Rightarrow> int \<Rightarrow> real" where
  "exact_sub x n = x - real_of_int n"

text \<open>Every accept and every write goes through.\<close>

definition env_at :: "time \<Rightarrow> Env" where
  "env_at t =
    \<lparr>now = t, accept_ok = always, send_raises = no_failure, float_sub = exact_sub\<rparr>"

text \<open>The write on socket 7 raises an exception of the transport.\<close>

definition env_7_down :: "time \<Rightarrow> Env" where
  "env_7_down t =
    \<lparr>now = t, accept_ok = always, send_raises = down_7, float_sub = exact_sub\<rparr>"

text \<open>The task is cancelled while it writes on socket 7.\<close>

definition env_7_cancelled :: "time \<Rightarrow> Env" where
  "env_7_cancelled t =
    \<lparr>now = t, accept_ok = always, send_raises = cancelled_7, float_sub = exact_sub\<rparr>"

text \<open>Socket 7 has been accepted before: \<^verbatim>\<open>accept\<close> raises on it.\<close>

definition env_7_accepted :: "time \<Rightarrow> Env" where
  "env_7_accepted t =
    \<lparr>now = t, accept_ok = all_but_7, send_raises = no_failure, float_sub = exact_sub\<rparr>"

text \<open>Every socket has been accepted before.\<close>

definition env_accepted :: "time \<Rightarrow> Env" where
  "env_accepted t =
    \<lparr>now = t, accept_ok = never, send_raises = no_failure, float_sub = exact_sub\<rparr>"

definition no_user :: "string \<Rightarrow> User option" where
  "no_user token = None"

text \<open>Alice connected once, on socket 7, at time 1.\<close>

definition alice_once :: ConnectionManager where
  "alice_once = fst (snd (connect 7 alice (env_at 1) init))"

text \<open>Alice connected on socket 7 at time 1 and on socket 8 at time 2.\<close>

definition alice_twice :: ConnectionManager where
  "alice_twice = fst (snd (connect 8 alice (env_7_accepted 2) alice_once))"

text \<open>Alice on socket 7, then Bob on socket 8.\<close>

definition alice_and_bob :: ConnectionManager where
  "alice_and_bob = fst (snd (connect 8 bob (env_7_accepted 2) alice_once))"

text \<open>
  The same manager as \<^const>\<open>alice_twice\<close> when the iteration of Alice's set yields
  socket 8 before socket 7.
\<close>

definition alice_twice_rev :: ConnectionManager where
  "alice_twice_rev = alice_twice\<lparr>active_connections := [(1, [8, 7])]\<rparr>"

section \<open>Role routing when every write goes through\<close>

text \<open>
  What one entry of \<^verbatim>\<open>active_connections\<close> contributes to \<^verbatim>\<open>send_role_message\<close> when no
  write fails: a write on each socket of the entry if the user of the entry's first
  socket has the role, and nothing otherwise.
\<close>

definition entry_events ::
  "ConnectionManager \<Rightarrow> WebSocketMessage \<Rightarrow> string \<Rightarrow> uid \<times> ws list \<Rightarrow> event list" where
  "entry_events m wm r item =
    (case snd item of
       [] \<Rightarrow> []
     | w # _ \<Rightarrow>
         (case map_of (connection_users m) w of
            None \<Rightarrow> []
          | Some usr \<Rightarrow>
              if role_value (role usr) = r then map (\<lambda>w. Send w wm True) (snd item) else []))"

text \<open>All sockets of a user look up to user records with one and the same role.\<close>

definition roles_coherent :: "ConnectionManager \<Rightarrow> bool" where
  "roles_coherent m \<longleftrightarrow>
    (\<forall>(u, conns) \<in> set (active_connections m). \<forall>w \<in> set conns. \<forall>w' \<in> set conns.
       map_option role (map_of (connection_users m) w) =
       map_option role (map_of (connection_users m) w'))"

section \<open>Facts about the dictionaries\<close>

lemma ball_alist_iff:
  assumes "distinct (map fst al)"
  shows "(\<forall>(k, v) \<in> set al. P k v) \<longleftrightarrow> (\<forall>k v. map_of al k = Some v \<longrightarrow> P k v)"
proof
  assume "\<forall>(k, v) \<in> set al. P k v"
  then show "\<forall>k v. map_of al k = Some v \<longrightarrow> P k v"
    by (blast dest: map_of_SomeD)
next
  assume r: "\<forall>k v. map_of al k = Some v \<longrightarrow> P k v"
  show "\<forall>(k, v) \<in> set al. P k v"
  proof (clarify)
    fix k v assume "(k, v) \<in> set al"
    with assms have "map_of al k = Some v" by (rule map_of_is_SomeI)
    with r show "P k v" by blast
  qed
qed

lemma keys_eq_iff:
  "set (map fst al) = set (map fst bl) \<longleftrightarrow> (\<forall>k. map_of al k = None \<longleftrightarrow> map_of bl k = None)"
  by (auto simp: map_of_eq_None_iff)

lemma registry_wf_alt:
  "registry_wf m \<longleftrightarrow>
    distinct (map fst (active_connections m)) \<and>
    distinct (map fst (connection_users m)) \<and>
    distinct (map fst (connection_metadata m)) \<and>
    (\<forall>u conns. map_of (active_connections m) u = Some conns \<longrightarrow>
       conns \<noteq> [] \<and> distinct conns \<and>
       (\<forall>w \<in> set conns. map_option user_id (map_of (connection_users m) w) = Some u)) \<and>
    (\<forall>w usr. map_of (connection_users m) w = Some usr \<longrightarrow> w \<in> set (conns_of m (user_id usr))) \<and>
    (\<forall>w. map_of (connection_metadata m) w = None \<longleftrightarrow> map_of (connection_users m) w = None)"
proof (cases "distinct (map fst (active_connections m)) \<and> distinct (map fst (connection_users m))")
  case True
  then have a: "distinct (map fst (active_connections m))"
    and b: "distinct (map fst (connection_users m))" by simp_all
  show ?thesis
    unfolding registry_wf_def ball_alist_iff [OF a] ball_alist_iff [OF b] keys_eq_iff
    by (rule refl)
next
  case False
  then show ?thesis unfolding registry_wf_def by blast
qed

lemma filter_key_distinct:
  "distinct (map fst al) \<Longrightarrow> map_of al k = Some v \<Longrightarrow> filter (\<lambda>(k', x). k' = k) al = [(k, v)]"
proof (induction al)
  case Nil
  then show ?case by simp
next
  case (Cons p al)
  obtain k' v' where p: "p = (k', v')" by (cases p)
  show ?case
  proof (cases "k' = k")
    case True
    with Cons.prems p have "v' = v" by simp
    moreover from True Cons.prems p have "k \<notin> fst ` set al" by simp
    then have "\<forall>x \<in> set al. fst x \<noteq> k" by force
    then have "filter (\<lambda>(k', x). k' = k) al = []"
      by (simp add: filter_empty_conv case_prod_unfold)
    ultimately show ?thesis using p True by simp
  next
    case False
    with Cons p show ?thesis by simp
  qed
qed

lemma registry_wf_invariant: "registry_wf m \<Longrightarrow> registry_invariant m"
  unfolding registry_invariant_def
proof (intro ballI, clarify)
  fix u conns
  assume wf: "registry_wf m" and mem: "(u, conns) \<in> set (active_connections m)"
  from wf have d: "distinct (map fst (connection_users m))" by (simp add: registry_wf_def)
  from wf mem have ne: "conns \<noteq> []"
    and us: "\<forall>w \<in> set conns. map_option user_id (map_of (connection_users m) w) = Some u"
    unfolding registry_wf_def by blast+
  have "\<forall>w \<in> set conns.
      map (user_id \<circ> snd) (filter (\<lambda>(w', usr). w' = w) (connection_users m)) = [u]"
  proof
    fix w assume "w \<in> set conns"
    with us have "map_option user_id (map_of (connection_users m) w) = Some u" by blast
    then obtain usr where "map_of (connection_users m) w = Some usr" "user_id usr = u"
      by (cases "map_of (connection_users m) w") simp_all
    with d show "map (user_id \<circ> snd) (filter (\<lambda>(w', usr). w' = w) (connection_users m)) = [u]"
      by (simp only: filter_key_distinct) simp
  qed
  with ne show "conns \<noteq> [] \<and> (\<forall>w \<in> set conns.
      map (user_id \<circ> snd) (filter (\<lambda>(w', usr). w' = w) (connection_users m)) = [u])"
    by simp
qed

lemma set_set_add: "set (set_add w conns) = insert w (set conns)"
  by (auto simp: set_add_def)

lemma distinct_set_add: "distinct conns \<Longrightarrow> distinct (set_add w conns)"
  by (simp add: set_add_def)

lemma set_add_nonempty: "set_add w conns \<noteq> []"
  by (auto simp: set_add_def)

section \<open>What disconnect and connect do to the dictionaries\<close>

lemma disconnect_unknown:
  assumes "registry_wf m" and "map_of (connection_users m) w = None"
  shows "disconnect w m = m"
proof -
  from assms have "map_of (connection_metadata m) w = None"
    by (simp add: registry_wf_alt)
  with assms(2) have "w \<notin> fst ` set (connection_users m)" "w \<notin> fst ` set (connection_metadata m)"
    by (simp_all add: map_of_eq_None_iff)
  with assms(2) show ?thesis
    by (simp add: disconnect_def)
qed


lemma disconnect_users:
  "map_of (connection_users (disconnect w m)) = (map_of (connection_users m))(w := None)"
  by (simp add: disconnect_def delete_conv')

lemma disconnect_metadata:
  "map_of (connection_metadata (disconnect w m)) = (map_of (connection_metadata m))(w := None)"
  by (simp add: disconnect_def delete_conv')

lemma disconnect_active_unknown:
  "map_of (connection_users m) w = None \<Longrightarrow>
   active_connections (disconnect w m) = active_connections m"
  by (simp add: disconnect_def)

lemma disconnect_active_known:
  assumes "map_of (connection_users m) w = Some usr"
    and "map_of (active_connections m) (user_id usr) = Some conns"
  shows "map_of (active_connections (disconnect w m)) =
    (map_of (active_connections m))
      (user_id usr := if removeAll w conns = [] then None else Some (removeAll w conns))"
  using assms by (simp add: disconnect_def discard_def delete_conv' update_conv')

lemma disconnect_distinct:
  "distinct (map fst (active_connections m)) \<Longrightarrow>
   distinct (map fst (active_connections (disconnect w m)))"
  "distinct (map fst (connection_users m)) \<Longrightarrow>
   distinct (map fst (connection_users (disconnect w m)))"
  "distinct (map fst (connection_metadata m)) \<Longrightarrow>
   distinct (map fst (connection_metadata (disconnect w m)))"
  by (simp_all add: disconnect_def distinct_delete distinct_update Let_def
      split: option.splits)

lemma registry_wf_disconnect:
  assumes wf: "registry_wf m"
  shows "registry_wf (disconnect w m)"
proof (cases "map_of (connection_users m) w")
  case None
  with wf show ?thesis by (simp add: disconnect_unknown)
next
  case (Some usr)
  let ?A = "active_connections m" and ?U = "connection_users m"
  from wf have wfa: "\<And>u conns. map_of ?A u = Some conns \<Longrightarrow>
       conns \<noteq> [] \<and> distinct conns \<and>
       (\<forall>w \<in> set conns. map_option user_id (map_of ?U w) = Some u)"
    and wfu: "\<And>w usr. map_of ?U w = Some usr \<Longrightarrow> w \<in> set (conns_of m (user_id usr))"
    and wfm: "\<And>w. map_of (connection_metadata m) w = None \<longleftrightarrow> map_of ?U w = None"
    unfolding registry_wf_alt by blast+
  from wfu [OF Some] obtain conns where c: "map_of ?A (user_id usr) = Some conns"
    and w: "w \<in> set conns"
    by (cases "map_of ?A (user_id usr)") (simp_all add: conns_of_def)
  note act = disconnect_active_known [OF Some c]
  have d: "distinct (map fst (active_connections (disconnect w m)))"
    "distinct (map fst (connection_users (disconnect w m)))"
    "distinct (map fst (connection_metadata (disconnect w m)))"
    using wf by (simp_all add: registry_wf_def disconnect_distinct)
  have a: "conns' \<noteq> [] \<and> distinct conns' \<and>
       (\<forall>w' \<in> set conns'. map_option user_id (map_of (connection_users (disconnect w m)) w') = Some u)"
    if h: "map_of (active_connections (disconnect w m)) u = Some conns'" for u conns'
  proof (cases "u = user_id usr")
    case True
    with h act have ne: "removeAll w conns \<noteq> []" and eq: "conns' = removeAll w conns"
      by (simp_all split: if_splits)
    from wfa [OF c] have "distinct conns"
      and "\<forall>w \<in> set conns. map_option user_id (map_of ?U w) = Some (user_id usr)" by simp_all
    with ne eq True show ?thesis
      by (simp add: disconnect_users distinct_removeAll)
  next
    case False
    with h act have old: "map_of ?A u = Some conns'" by simp
    from wfa [OF old] have p: "conns' \<noteq> []" "distinct conns'"
      and q: "\<forall>w \<in> set conns'. map_option user_id (map_of ?U w) = Some u" by simp_all
    have "w \<notin> set conns'"
    proof
      assume "w \<in> set conns'"
      with q have "map_option user_id (map_of ?U w) = Some u" by blast
      with Some False show False by simp
    qed
    with p q show ?thesis
      by (auto simp: disconnect_users)
  qed
  have b: "w' \<in> set (conns_of (disconnect w m) (user_id usr'))"
    if h: "map_of (connection_users (disconnect w m)) w' = Some usr'" for w' usr'
  proof -
    from h have ne: "w' \<noteq> w" and old: "map_of ?U w' = Some usr'"
      by (simp_all add: disconnect_users split: if_splits)
    from wfu [OF old] have mem: "w' \<in> set (conns_of m (user_id usr'))" .
    show ?thesis
    proof (cases "user_id usr' = user_id usr")
      case True
      with mem c have "w' \<in> set conns" by (simp add: conns_of_def)
      with ne have in_rest: "w' \<in> set (removeAll w conns)" by simp
      have "removeAll w conns \<noteq> []"
      proof
        assume e: "removeAll w conns = []"
        from in_rest show False unfolding e by simp
      qed
      with True act in_rest show ?thesis
        by (simp add: conns_of_def)
    next
      case False
      with mem act show ?thesis by (simp add: conns_of_def)
    qed
  qed
  have e: "map_of (connection_metadata (disconnect w m)) w' = None \<longleftrightarrow>
      map_of (connection_users (disconnect w m)) w' = None" for w'
    using wfm [of w'] by (simp add: disconnect_users disconnect_metadata)
  from d a b e show ?thesis
    unfolding registry_wf_alt by blast
qed

lemma conns_of_disconnect:
  "conns_of (disconnect w m) u =
    (case map_of (connection_users m) w of
       None \<Rightarrow> conns_of m u
     | Some usr \<Rightarrow> if u = user_id usr then removeAll w (conns_of m u) else conns_of m u)"
proof (cases "map_of (connection_users m) w")
  case None
  then show ?thesis by (simp add: conns_of_def disconnect_active_unknown)
next
  case (Some usr)
  show ?thesis
  proof (cases "map_of (active_connections m) (user_id usr)")
    case None
    with Some have "active_connections (disconnect w m) = active_connections m"
      by (simp add: disconnect_def)
    with Some None show ?thesis by (simp add: conns_of_def)
  next
    case (Some conns)
    from disconnect_active_known [OF \<open>map_of (connection_users m) w = Some usr\<close> Some]
    show ?thesis using \<open>map_of (connection_users m) w = Some usr\<close> Some
      by (simp add: conns_of_def)
  qed
qed

lemma conns_of_disconnect_other:
  "w' \<noteq> w \<Longrightarrow> w' \<in> set (conns_of (disconnect w m) u) \<longleftrightarrow> w' \<in> set (conns_of m u)"
  by (simp add: conns_of_disconnect split: option.splits)

lemma registry_wf_unregistered:
  assumes wf: "registry_wf m" and un: "map_of (connection_users m) w = None"
  shows "unregistered m w"
proof -
  from wf un have md: "map_of (connection_metadata m) w = None"
    unfolding registry_wf_alt by blast
  have "\<forall>(u, conns) \<in> set (active_connections m). w \<notin> set conns"
  proof (clarify)
    fix u conns assume mem: "(u, conns) \<in> set (active_connections m)" and "w \<in> set conns"
    with wf have "map_option user_id (map_of (connection_users m) w) = Some u"
      unfolding registry_wf_def by blast
    with un show False by simp
  qed
  with un md show ?thesis by (simp add: unregistered_def)
qed

lemma stored_active:
  "map_of (active_connections (stored w usr t m)) =
     (map_of (active_connections m))(user_id usr \<mapsto> set_add w (conns_of m (user_id usr)))"
  by (simp add: stored_def conns_of_def update_conv' set_add_def split: option.splits)

lemma stored_users:
  "map_of (connection_users (stored w usr t m)) = (map_of (connection_users m))(w \<mapsto> usr)"
  by (simp add: stored_def update_conv')

lemma stored_metadata:
  "map_of (connection_metadata (stored w usr t m)) =
     (map_of (connection_metadata m))(w \<mapsto> \<lparr>connected_at = t, last_heartbeat = t\<rparr>)"
  by (simp add: stored_def update_conv')

lemma connect_cases:
  "connect w usr env m =
    (if \<not> accept_ok env w then (Some AcceptError, m, [])
     else case try_send (welcome_message usr (now env)) w env of
        (None, evs) \<Rightarrow> (None, stored w usr (now env) m, Accept w # evs)
      | (Some e, evs) \<Rightarrow>
          if is_Exception e
          then (None, disconnect w (stored w usr (now env) m), Accept w # evs)
          else (Some e, stored w usr (now env) m, Accept w # evs))"
  by (simp add: connect_def send_personal_message_def split: prod.splits option.splits)

lemma registry_wf_stored:
  assumes wf: "registry_wf m"
    and nr: "\<And>usr'. map_of (connection_users m) w = Some usr' \<Longrightarrow> user_id usr' = user_id usr"
  shows "registry_wf (stored w usr t m)"
proof -
  let ?A = "active_connections m" and ?U = "connection_users m"
  let ?m = "stored w usr t m"
  from wf have wfa: "\<And>u conns. map_of ?A u = Some conns \<Longrightarrow>
       conns \<noteq> [] \<and> distinct conns \<and>
       (\<forall>w \<in> set conns. map_option user_id (map_of ?U w) = Some u)"
    and wfu: "\<And>w usr. map_of ?U w = Some usr \<Longrightarrow> w \<in> set (conns_of m (user_id usr))"
    and wfm: "\<And>w. map_of (connection_metadata m) w = None \<longleftrightarrow> map_of ?U w = None"
    unfolding registry_wf_alt by blast+
  have d: "distinct (map fst (active_connections ?m))"
    "distinct (map fst (connection_users ?m))"
    "distinct (map fst (connection_metadata ?m))"
    using wf by (simp_all add: registry_wf_def stored_def distinct_update split: option.splits)
  have own: "distinct (conns_of m (user_id usr)) \<and>
     (\<forall>w' \<in> set (conns_of m (user_id usr)).
        map_option user_id (map_of ?U w') = Some (user_id usr))"
  proof (cases "map_of ?A (user_id usr)")
    case None
    then show ?thesis by (simp add: conns_of_def)
  next
    case (Some conns)
    with wfa [OF Some] show ?thesis by (simp add: conns_of_def)
  qed
  have a: "conns' \<noteq> [] \<and> distinct conns' \<and>
       (\<forall>w' \<in> set conns'. map_option user_id (map_of (connection_users ?m) w') = Some u)"
    if h: "map_of (active_connections ?m) u = Some conns'" for u conns'
  proof (cases "u = user_id usr")
    case True
    with h have eq: "conns' = set_add w (conns_of m (user_id usr))"
      by (simp add: stored_active)
    from own True show ?thesis
      unfolding eq by (simp add: set_add_nonempty distinct_set_add set_set_add stored_users)
  next
    case False
    with h have old: "map_of ?A u = Some conns'" by (simp add: stored_active)
    from wfa [OF old] have p: "conns' \<noteq> []" "distinct conns'"
      and q: "\<forall>w \<in> set conns'. map_option user_id (map_of ?U w) = Some u" by simp_all
    have "w \<notin> set conns'"
    proof
      assume "w \<in> set conns'"
      with q have "map_option user_id (map_of ?U w) = Some u" by blast
      then obtain usr' where "map_of ?U w = Some usr'" "user_id usr' = u"
        by (cases "map_of ?U w") simp_all
      with nr [of usr'] False show False by simp
    qed
    with p q show ?thesis
      by (auto simp: stored_users)
  qed
  have b: "w' \<in> set (conns_of ?m (user_id usr'))"
    if h: "map_of (connection_users ?m) w' = Some usr'" for w' usr'
  proof (cases "w' = w")
    case True
    with h have "usr' = usr" by (simp add: stored_users)
    with True show ?thesis by (simp add: conns_of_def stored_active set_set_add)
  next
    case False
    with h have old: "map_of ?U w' = Some usr'" by (simp add: stored_users)
    from wfu [OF old] have mem: "w' \<in> set (conns_of m (user_id usr'))" .
    then show ?thesis
      by (cases "user_id usr' = user_id usr")
        (simp_all add: conns_of_def [of ?m] stored_active set_set_add, simp add: conns_of_def)
  qed
  have e: "map_of (connection_metadata ?m) w' = None \<longleftrightarrow>
      map_of (connection_users ?m) w' = None" for w'
    using wfm [of w'] by (simp add: stored_users stored_metadata)
  from d a b e show ?thesis
    unfolding registry_wf_alt by blast
qed

lemma accepts_once_unregistered:
  assumes "accepts_once m env" and "accept_ok env w"
  shows "map_of (connection_users m) w = None"
proof (cases "map_of (connection_users m) w")
  case None
  then show ?thesis .
next
  case (Some usr)
  then have "(w, usr) \<in> set (connection_users m)" by (rule map_of_SomeD)
  with assms(1) have "\<not> accept_ok env w" unfolding accepts_once_def by blast
  with assms(2) show ?thesis by simp
qed

lemma registry_wf_connect:
  assumes wf: "registry_wf m" and once: "accepts_once m env"
  shows "registry_wf (fst (snd (connect w usr env m)))"
proof (cases "accept_ok env w")
  case False
  with wf show ?thesis by (simp add: connect_cases)
next
  case True
  with once have "map_of (connection_users m) w = None" by (rule accepts_once_unregistered)
  then have nr:
    "\<And>usr'. map_of (connection_users m) w = Some usr' \<Longrightarrow> user_id usr' = user_id usr"
    by simp
  have st: "registry_wf (stored w usr (now env) m)"
    using wf nr by (rule registry_wf_stored)
  then have "registry_wf (disconnect w (stored w usr (now env) m))"
    by (rule registry_wf_disconnect)
  with st True show ?thesis
    by (simp add: connect_cases split: prod.splits option.splits)
qed

lemma registry_wf_step:
  assumes "registry_wf m" and "call_accepts_once m c"
  shows "registry_wf (step c m)"
proof (cases c)
  case (Register w usr env)
  with assms show ?thesis by (simp add: registry_wf_connect)
next
  case (Unregister w)
  with assms(1) show ?thesis by (simp add: registry_wf_disconnect)
qed

lemma registry_wf_init: "registry_wf init"
  by (simp add: registry_wf_def init_def)

lemma invariant_after_each_wf:
  "registry_wf m \<Longrightarrow> framework_sockets m cs \<Longrightarrow> invariant_after_each m cs"
proof (induction cs arbitrary: m)
  case Nil
  show ?case by simp
next
  case (Cons c cs)
  from Cons.prems have wf': "registry_wf (step c m)"
    by (simp add: registry_wf_step)
  moreover from Cons.prems have "framework_sockets (step c m) cs" by simp
  ultimately have "invariant_after_each (step c m) cs" by (rule Cons.IH)
  with wf' show ?case by (simp add: registry_wf_invariant)
qed

section \<open>Which exceptions leave the send operations\<close>

lemma make_ws_message_Exception:
  "make_ws_message message t = Inl e \<Longrightarrow> is_Exception e"
  by (auto simp: make_ws_message_def split: option.splits pyval.splits)

lemma try_send_raises:
  assumes "try_send message w env = (Some x, evs)" and "\<not> is_Exception x"
  shows "send_raises env w = Some x"
proof (cases "make_ws_message message (now env)")
  case (Inl e)
  with assms(1) have "x = e" by (simp add: try_send_def)
  with Inl assms(2) show ?thesis by (simp add: make_ws_message_Exception)
next
  case (Inr wm)
  with assms(1) show ?thesis
    by (cases "send_raises env w") (simp_all add: try_send_def)
qed

lemma send_personal_message_raises:
  assumes "fst (send_personal_message message w env m) = Some x"
  shows "\<not> is_Exception x \<and> send_raises env w = Some x"
proof -
  obtain e evs where ts: "try_send message w env = (e, evs)"
    by (cases "try_send message w env")
  with assms have e: "e = Some x" and n: "\<not> is_Exception x"
    by (auto simp: send_personal_message_def split: option.splits if_splits)
  from ts e n show ?thesis by (simp add: try_send_raises)
qed

lemma send_user_loop_disc:
  "snd (snd (snd (send_user_loop message conns env m))) = []"
proof (induction conns arbitrary: m)
  case Nil
  show ?case by simp
next
  case (Cons w rest)
  obtain e m1 evs1 where s: "send_personal_message message w env m = (e, m1, evs1)"
    by (cases "send_personal_message message w env m") auto
  obtain e2 m2 evs2 disc where r: "send_user_loop message rest env m1 = (e2, m2, evs2, disc)"
    by (cases "send_user_loop message rest env m1") auto
  with Cons.IH [of m1] have d: "disc = []" by simp
  show ?case
  proof (cases e)
    case None
    with s r d show ?thesis by simp
  next
    case (Some x)
    with s send_personal_message_raises [of message w env m x] have "\<not> is_Exception x"
      by simp
    with s Some show ?thesis by simp
  qed
qed

lemma send_user_loop_raises:
  "fst (send_user_loop message conns env m) = Some x \<Longrightarrow>
   \<not> is_Exception x \<and> (\<exists>w \<in> set conns. send_raises env w = Some x)"
proof (induction conns arbitrary: m)
  case Nil
  then show ?case by simp
next
  case (Cons w rest)
  obtain e m1 evs1 where s: "send_personal_message message w env m = (e, m1, evs1)"
    by (cases "send_personal_message message w env m") auto
  obtain e2 m2 evs2 disc where r: "send_user_loop message rest env m1 = (e2, m2, evs2, disc)"
    by (cases "send_user_loop message rest env m1") auto
  show ?case
  proof (cases e)
    case None
    with s r Cons.prems have "fst (send_user_loop message rest env m1) = Some x" by simp
    from Cons.IH [OF this] show ?thesis by auto
  next
    case (Some y)
    with s send_personal_message_raises [of message w env m y]
    have y: "\<not> is_Exception y" "send_raises env w = Some y" by simp_all
    with s Some Cons.prems have "x = y" by simp
    with y show ?thesis by simp
  qed
qed

lemma send_user_message_raises:
  assumes "fst (send_user_message message u env m) = Some x"
  shows "\<not> is_Exception x \<and> (\<exists>w \<in> set (conns_of m u). send_raises env w = Some x)"
proof (cases "map_of (active_connections m) u")
  case None
  with assms show ?thesis by (simp add: send_user_message_def)
next
  case (Some conns)
  obtain e m1 evs disc where r: "send_user_loop message conns env m = (e, m1, evs, disc)"
    by (cases "send_user_loop message conns env m") auto
  with Some assms have "e = Some x"
    by (cases e) (simp_all add: send_user_message_def)
  with r have "fst (send_user_loop message conns env m) = Some x" by simp
  from send_user_loop_raises [OF this] Some show ?thesis by (simp add: conns_of_def)
qed

lemma cleanup_loop_events:
  "ev \<in> set (snd (cleanup_loop stale m)) \<Longrightarrow> \<exists>w \<in> set stale. ev = Close w 1000 ''Heartbeat timeout''"
proof (induction stale arbitrary: m)
  case Nil
  then show ?case by simp
next
  case (Cons w rest)
  then show ?case
    by (auto split: prod.splits) (metis snd_conv)
qed

lemma cleanup_loop_fst:
  "fst (cleanup_loop (w # rest) m) = fst (cleanup_loop rest (disconnect w m))"
  by (simp split: prod.splits)

lemma cleanup_loop_snd:
  "snd (cleanup_loop (w # rest) m) =
     Close w 1000 ''Heartbeat timeout'' # snd (cleanup_loop rest (disconnect w m))"
  by (simp split: prod.splits)

lemma registry_wf_cleanup_loop:
  "registry_wf m \<Longrightarrow> registry_wf (fst (cleanup_loop stale m))"
proof (induction stale arbitrary: m)
  case Nil
  then show ?case by simp
next
  case (Cons w rest)
  from Cons.prems have "registry_wf (disconnect w m)" by (rule registry_wf_disconnect)
  then have "registry_wf (fst (cleanup_loop rest (disconnect w m)))" by (rule Cons.IH)
  then show ?case by (simp only: cleanup_loop_fst)
qed

lemma cleanup_loop_users:
  "map_of (connection_users (fst (cleanup_loop stale m))) w =
     (if w \<in> set stale then None else map_of (connection_users m) w)"
proof (induction stale arbitrary: m)
  case Nil
  show ?case by simp
next
  case (Cons x rest)
  from Cons.IH [of "disconnect x m"] show ?case
    by (simp add: disconnect_users cleanup_loop_fst del: cleanup_loop.simps)
qed

lemma cleanup_loop_metadata:
  "map_of (connection_metadata (fst (cleanup_loop stale m))) w =
     (if w \<in> set stale then None else map_of (connection_metadata m) w)"
proof (induction stale arbitrary: m)
  case Nil
  show ?case by simp
next
  case (Cons x rest)
  from Cons.IH [of "disconnect x m"] show ?case
    by (simp add: disconnect_metadata cleanup_loop_fst del: cleanup_loop.simps)
qed

lemma cleanup_loop_conns:
  "w \<notin> set stale \<Longrightarrow>
   w \<in> set (conns_of (fst (cleanup_loop stale m)) u) \<longleftrightarrow> w \<in> set (conns_of m u)"
proof (induction stale arbitrary: m)
  case Nil
  show ?case by simp
next
  case (Cons x rest)
  then have "w \<noteq> x" "w \<notin> set rest" by simp_all
  with Cons.IH [of "disconnect x m"] show ?case
    by (simp add: conns_of_disconnect_other cleanup_loop_fst del: cleanup_loop.simps)
qed

lemma cleanup_loop_closes:
  "snd (cleanup_loop stale m) = map (\<lambda>w. Close w 1000 ''Heartbeat timeout'') stale"
proof (induction stale arbitrary: m)
  case Nil
  show ?case by simp
next
  case (Cons x rest)
  from Cons.IH [of "disconnect x m"] show ?case
    by (simp add: cleanup_loop_snd del: cleanup_loop.simps)
qed

lemma stale_connections_iff:
  assumes "distinct (map fst (connection_metadata m))"
  shows "w \<in> set (stale_connections cutoff m) \<longleftrightarrow>
    (\<exists>md. map_of (connection_metadata m) w = Some md \<and> last_heartbeat md < cutoff)"
proof -
  have "w \<in> set (stale_connections cutoff m) \<longleftrightarrow>
    (\<exists>md. (w, md) \<in> set (connection_metadata m) \<and> last_heartbeat md < cutoff)"
    by (force simp: stale_connections_def)
  also have "\<dots> \<longleftrightarrow> (\<exists>md. map_of (connection_metadata m) w = Some md \<and>
       last_heartbeat md < cutoff)"
    using assms by simp
  finally show ?thesis .
qed

section \<open>The concrete registries\<close>

lemmas env_defs = env_at_def env_7_down_def env_7_cancelled_def env_7_accepted_def
  env_accepted_def always_def all_but_7_def never_def no_failure_def down_7_def
  cancelled_7_def exact_sub_def

lemma alice_once_eq: "alice_once =
 \<lparr>active_connections = [(1, [7])],
    connection_users = [(7, alice)],
    connection_metadata = [(7, \<lparr>connected_at = 1, last_heartbeat = 1\<rparr>)]\<rparr>"
  by (simp add: alice_once_def init_def connect_cases stored_def try_send_def
    make_ws_message_def welcome_message_def env_defs alice_def)

lemma alice_twice_eq: "alice_twice =
 \<lparr>active_connections = [(1, [7, 8])],
    connection_users = [(7, alice), (8, alice)],
    connection_metadata = [(7, \<lparr>connected_at = 1, last_heartbeat = 1\<rparr>),
       (8, \<lparr>connected_at = 2, last_heartbeat = 2\<rparr>)]\<rparr>"
  by (simp add: alice_twice_def alice_once_eq connect_cases stored_def try_send_def
    make_ws_message_def welcome_message_def env_defs set_add_def alice_def)

lemma alice_and_bob_eq: "alice_and_bob =
 \<lparr>active_connections = [(1, [7]), (2, [8])],
    connection_users = [(7, alice), (8, bob)],
    connection_metadata = [(7, \<lparr>connected_at = 1, last_heartbeat = 1\<rparr>),
       (8, \<lparr>connected_at = 2, last_heartbeat = 2\<rparr>)]\<rparr>"
  by (simp add: alice_and_bob_def alice_once_eq connect_cases stored_def try_send_def
    make_ws_message_def welcome_message_def env_defs set_add_def alice_def bob_def)

lemma registry_wf_alice_once: "registry_wf alice_once"
  by (simp add: alice_once_eq registry_wf_def conns_of_def alice_def)

lemma registry_wf_alice_twice: "registry_wf alice_twice"
  by (simp add: alice_twice_eq registry_wf_def conns_of_def alice_def)

section \<open>The claims\<close>

subsection \<open>C1: the Registry invariant along sequences of calls\<close>

text \<open>
  C1: starting from the empty manager, after each call of every finite sequence of
  register and unregister calls, with arbitrary users and sockets of the framework (a
  socket accepts once), the Registry invariant holds: no user entry has an empty
  connection set, and every connection of a user's set has exactly one reverse-lookup
  entry, which names that user. In any call \<^verbatim>\<open>accept\<close> may raise and the welcome
  message may fail to be sent.
\<close>

theorem registry_invariant_after_each_call:
  "framework_sockets init calls \<Longrightarrow> invariant_after_each init calls"
  using registry_wf_init by (rule invariant_after_each_wf)

text \<open>
  C1 on a run of four calls: two connections of Alice, an attempt to register socket 7
  again for Bob, on which \<^verbatim>\<open>accept\<close> raises, and the disconnection of socket 7.
\<close>

theorem registry_invariant_witness:
  "framework_sockets init
     [Register 7 alice (env_at 1), Register 8 alice (env_7_accepted 2),
      Register 7 bob (env_accepted 3), Unregister 7] \<and>
   invariant_after_each init
     [Register 7 alice (env_at 1), Register 8 alice (env_7_accepted 2),
      Register 7 bob (env_accepted 3), Unregister 7]"
proof -
  have h: "framework_sockets init
     [Register 7 alice (env_at 1), Register 8 alice (env_7_accepted 2),
      Register 7 bob (env_accepted 3), Unregister 7]"
    by (simp add: accepts_once_def init_def connect_cases stored_def try_send_def
        make_ws_message_def welcome_message_def set_add_def env_defs alice_def)
  with registry_invariant_after_each_call [OF h] show ?thesis by simp
qed

subsection \<open>C5: registering a registered connection again\<close>

lemma send_personal_message_state:
  "fst (snd (send_personal_message message w env m)) = m \<or>
   fst (snd (send_personal_message message w env m)) = disconnect w m"
  by (simp add: send_personal_message_def split: prod.splits option.splits)

lemma connect_state:
  "fst (snd (connect w usr env m)) = m \<or>
   fst (snd (connect w usr env m)) = stored w usr (now env) m \<or>
   fst (snd (connect w usr env m)) = disconnect w (stored w usr (now env) m)"
  by (simp add: connect_cases split: prod.splits option.splits)

lemma connect_keeps_metadata:
  assumes wf: "registry_wf m" and once: "accepts_once m env"
    and reg: "map_of (connection_metadata m) w = Some md"
    and after: "map_of (connection_metadata (fst (snd (connect w' usr' env m)))) w = Some md'"
  shows "md' = md"
proof (cases "accept_ok env w'")
  case False
  with reg after show ?thesis by (simp add: connect_cases)
next
  case True
  with once have "map_of (connection_users m) w' = None" by (rule accepts_once_unregistered)
  with wf have "map_of (connection_metadata m) w' = None"
    unfolding registry_wf_alt by blast
  with reg have ne: "w \<noteq> w'" by auto
  let ?st = "stored w' usr' (now env) m"
  from ne reg have st: "map_of (connection_metadata ?st) w = Some md"
    by (simp add: stored_metadata)
  with ne have dc: "map_of (connection_metadata (disconnect w' ?st)) w = Some md"
    by (simp add: disconnect_metadata)
  from connect_state [of w' usr' env m]
  consider "fst (snd (connect w' usr' env m)) = m"
    | "fst (snd (connect w' usr' env m)) = ?st"
    | "fst (snd (connect w' usr' env m)) = disconnect w' ?st"
    by blast
  then show ?thesis
  proof cases
    case 1
    with after reg show ?thesis by simp
  next
    case 2
    with after st show ?thesis by simp
  next
    case 3
    with after dc show ?thesis by simp
  qed
qed

lemma heartbeat_metadata:
  assumes reg: "map_of (connection_metadata m) w = Some md"
    and Some: "map_of (connection_metadata m) w' = Some mdw"
  shows "map_of (connection_metadata (m\<lparr>connection_metadata :=
      AList.update w' (mdw\<lparr>last_heartbeat := now env\<rparr>) (connection_metadata m)\<rparr>)) w =
      (if w = w' then Some (md\<lparr>last_heartbeat := now env\<rparr>) else Some md)"
  proof (cases "w = w'")
    case True
    with reg Some have "mdw = md" by simp
    with True show ?thesis by (simp add: update_conv')
  next
    case False
    with reg show ?thesis by (simp add: update_conv')
  qed

lemma handle_heartbeat_known:
  assumes Some: "map_of (connection_metadata m) w' = Some mdw"
  shows "handle_heartbeat w' env m =
      send_personal_message (heartbeat_ack (now env)) w' env (m\<lparr>connection_metadata :=
      AList.update w' (mdw\<lparr>last_heartbeat := now env\<rparr>) (connection_metadata m)\<rparr>)"
  using Some by (simp add: handle_heartbeat_def)


lemma handle_heartbeat_state:
  assumes "map_of (connection_metadata m) w' = Some mdw"
  shows "fst (snd (handle_heartbeat w' env m)) =
      m\<lparr>connection_metadata :=
        AList.update w' (mdw\<lparr>last_heartbeat := now env\<rparr>) (connection_metadata m)\<rparr> \<or>
    fst (snd (handle_heartbeat w' env m)) =
      disconnect w' (m\<lparr>connection_metadata :=
        AList.update w' (mdw\<lparr>last_heartbeat := now env\<rparr>) (connection_metadata m)\<rparr>)"
  unfolding handle_heartbeat_known [OF assms]
  by (rule send_personal_message_state)

lemma handle_heartbeat_keeps_connected_at:
  assumes reg: "map_of (connection_metadata m) w = Some md"
    and after: "map_of (connection_metadata (fst (snd (handle_heartbeat w' env m)))) w = Some md'"
  shows "connected_at md' = connected_at md"
proof (cases "map_of (connection_metadata m) w'")
  case None
  then have "handle_heartbeat w' env m = (None, m, [])" by (simp add: handle_heartbeat_def)
  with after have "map_of (connection_metadata m) w = Some md'" by simp
  with reg show ?thesis by simp
next
  case (Some mdw)
  define m1 where "m1 = m\<lparr>connection_metadata :=
      AList.update w' (mdw\<lparr>last_heartbeat := now env\<rparr>) (connection_metadata m)\<rparr>"
  have md1: "map_of (connection_metadata m1) w =
      (if w = w' then Some (md\<lparr>last_heartbeat := now env\<rparr>) else Some md)"
    unfolding m1_def using reg Some by (rule heartbeat_metadata)
  from handle_heartbeat_state [OF Some, of env]
  consider "fst (snd (handle_heartbeat w' env m)) = m1"
    | "fst (snd (handle_heartbeat w' env m)) = disconnect w' m1"
    unfolding m1_def by blast
  then show ?thesis
  proof cases
    case 1
    with after have a: "map_of (connection_metadata m1) w = Some md'" by simp
    show ?thesis
    proof (cases "w = w'")
      case True
      with a md1 have "md' = md\<lparr>last_heartbeat := now env\<rparr>" by simp
      then show ?thesis by simp
    next
      case False
      with a md1 have "md' = md" by simp
      then show ?thesis by simp
    qed
  next
    case 2
    with after have d: "map_of (connection_metadata (disconnect w' m1)) w = Some md'"
      by simp
    have ne: "w \<noteq> w'"
    proof
      assume "w = w'"
      with d show False by (simp add: disconnect_metadata)
    qed
    with d have "map_of (connection_metadata m1) w = Some md'"
      by (simp add: disconnect_metadata)
    with ne md1 have "md' = md" by simp
    then show ?thesis by simp
  qed
qed

text \<open>
  C5: for every well-formed manager and every registered connection of the framework,
  calling \<^verbatim>\<open>connect\<close> again with this connection is a no-op on the Registry: the
  manager after the call, with its connection sets, reverse lookup, \<^verbatim>\<open>connected_at\<close> and
  \<^verbatim>\<open>last_heartbeat\<close>, equals the manager before (\<^verbatim>\<open>accept\<close> raises before anything
  is stored, and that exception leaves \<^verbatim>\<open>connect\<close>). And \<^verbatim>\<open>connected_at\<close> is immutable
  once set: as long as the connection is registered, no \<^verbatim>\<open>connect\<close>, no
  \<^verbatim>\<open>handle_heartbeat\<close> and no \<^verbatim>\<open>disconnect\<close>, on this or another socket, changes it.
\<close>

theorem register_again_no_op:
  assumes wf: "registry_wf m" and once: "accepts_once m env"
    and reg: "map_of (connection_metadata m) w = Some md"
  shows "connect w usr env m = (Some AcceptError, m, []) \<and>
    (\<forall>w' usr' md'.
       map_of (connection_metadata (fst (snd (connect w' usr' env m)))) w = Some md' \<longrightarrow>
       md' = md) \<and>
    (\<forall>w' env' md'.
       map_of (connection_metadata (fst (snd (handle_heartbeat w' env' m)))) w = Some md' \<longrightarrow>
       connected_at md' = connected_at md) \<and>
    (\<forall>w' md'.
       map_of (connection_metadata (disconnect w' m)) w = Some md' \<longrightarrow> md' = md)"
proof (intro conjI allI impI)
  from wf have "map_of (connection_metadata m) w = None \<longleftrightarrow>
      map_of (connection_users m) w = None"
    unfolding registry_wf_alt by blast
  with reg have known: "map_of (connection_users m) w \<noteq> None" by simp
  have "\<not> accept_ok env w"
  proof
    assume "accept_ok env w"
    with once have "map_of (connection_users m) w = None" by (rule accepts_once_unregistered)
    with known show False by simp
  qed
  then show "connect w usr env m = (Some AcceptError, m, [])"
    by (simp add: connect_cases)
next
  fix w' usr' md'
  assume "map_of (connection_metadata (fst (snd (connect w' usr' env m)))) w = Some md'"
  with wf once reg show "md' = md" by (rule connect_keeps_metadata)
next
  fix w' env' md'
  assume "map_of (connection_metadata (fst (snd (handle_heartbeat w' env' m)))) w = Some md'"
  with reg show "connected_at md' = connected_at md"
    by (rule handle_heartbeat_keeps_connected_at)
next
  fix w' md'
  assume "map_of (connection_metadata (disconnect w' m)) w = Some md'"
  with reg show "md' = md"
    by (simp add: disconnect_metadata split: if_splits)
qed

text \<open>
  C5 on socket 7 of Alice, registered at time 1: a second \<^verbatim>\<open>connect\<close> at time 3 raises
  and leaves the manager as it was, and a heartbeat at time 5 leaves \<^verbatim>\<open>connected_at\<close>
  at 1.
\<close>

theorem register_again_witness:
  "registry_wf alice_once \<and> accepts_once alice_once (env_accepted 3) \<and>
   map_of (connection_metadata alice_once) 7 = Some \<lparr>connected_at = 1, last_heartbeat = 1\<rparr> \<and>
   connect 7 alice (env_accepted 3) alice_once = (Some AcceptError, alice_once, []) \<and>
   map_of (connection_metadata (fst (snd (handle_heartbeat 7 (env_at 5) alice_once)))) 7 =
     Some \<lparr>connected_at = 1, last_heartbeat = 5\<rparr>"
proof -
  have once: "accepts_once alice_once (env_accepted 3)"
    by (simp add: accepts_once_def alice_once_eq env_defs)
  have reg: "map_of (connection_metadata alice_once) 7 =
      Some \<lparr>connected_at = 1, last_heartbeat = 1\<rparr>"
    by (simp add: alice_once_eq)
  have hb: "map_of (connection_metadata (fst (snd (handle_heartbeat 7 (env_at 5) alice_once)))) 7 =
     Some \<lparr>connected_at = 1, last_heartbeat = 5\<rparr>"
    by (simp add: alice_once_eq handle_heartbeat_def send_personal_message_def try_send_def
        make_ws_message_def heartbeat_ack_def env_defs)
  from register_again_no_op [OF registry_wf_alice_once once reg, of alice]
    registry_wf_alice_once once reg hb
  show ?thesis by simp
qed

subsection \<open>C10: which exceptions the send operations let through\<close>

text \<open>
  C10, as stated: \<^verbatim>\<open>send_personal_message\<close> catches any exception of the write and
  \<^verbatim>\<open>send_user_message\<close> never raises. Both handlers are \<^verbatim>\<open>except Exception\<close>: when the
  task is cancelled at the write on socket 7, \<^verbatim>\<open>CancelledError\<close> leaves
  \<^verbatim>\<open>send_personal_message\<close> and \<^verbatim>\<open>send_user_message\<close>, and the socket stays registered.
\<close>

theorem sends_never_raise_counterexample:
  "send_personal_message (heartbeat_ack 3) 7 (env_7_cancelled 3) alice_once =
     (Some CancelledError, alice_once,
      [Send 7 \<lparr>msg_type = ''heartbeat_ack'', msg_data = [(''timestamp'', PTime 3)],
               msg_timestamp = 3\<rparr> False]) \<and>
   send_user_message (heartbeat_ack 3) 1 (env_7_cancelled 3) alice_once =
     (Some CancelledError, alice_once,
      [Send 7 \<lparr>msg_type = ''heartbeat_ack'', msg_data = [(''timestamp'', PTime 3)],
               msg_timestamp = 3\<rparr> False])"
  by (simp add: alice_once_eq send_user_message_def send_personal_message_def try_send_def
      make_ws_message_def heartbeat_ack_def env_defs)

text \<open>
  C10, amended: for every socket, message, environment and manager,
  \<^verbatim>\<open>send_personal_message\<close> lets no exception of the \<^verbatim>\<open>Exception\<close> hierarchy through,
  whether the construction of the envelope or the write raised it: an exception that
  leaves it is outside that hierarchy and was raised by the write on this socket. The
  \<^verbatim>\<open>except\<close> branch of the loop of \<^verbatim>\<open>send_user_message\<close> is never taken, so that
  \<^verbatim>\<open>disconnected_connections\<close> is empty after the loop. An exception that leaves
  \<^verbatim>\<open>send_user_message\<close> is outside the \<^verbatim>\<open>Exception\<close> hierarchy and was raised by the
  write on a socket of the user. When the writes raise nothing outside the hierarchy,
  neither operation raises.
\<close>

theorem sends_raise_nothing_of_Exception:
  "(fst (send_personal_message message websocket env m) = Some x \<longrightarrow>
      \<not> is_Exception x \<and> send_raises env websocket = Some x) \<and>
   snd (snd (snd (send_user_loop message conns env m))) = [] \<and>
   (fst (send_user_message message u env m) = Some x \<longrightarrow>
      \<not> is_Exception x \<and> (\<exists>w \<in> set (conns_of m u). send_raises env w = Some x)) \<and>
   ((\<forall>w y. send_raises env w = Some y \<longrightarrow> is_Exception y) \<longrightarrow>
      fst (send_personal_message message websocket env m) = None \<and>
      fst (send_user_message message u env m) = None)"
proof (intro conjI impI)
  show "\<not> is_Exception x" "send_raises env websocket = Some x"
    if "fst (send_personal_message message websocket env m) = Some x"
    using send_personal_message_raises [OF that] by simp_all
  show "snd (snd (snd (send_user_loop message conns env m))) = []"
    by (rule send_user_loop_disc)
  show "\<not> is_Exception x" "\<exists>w \<in> set (conns_of m u). send_raises env w = Some x"
    if "fst (send_user_message message u env m) = Some x"
    using send_user_message_raises [OF that] by simp_all
  assume all: "\<forall>w y. send_raises env w = Some y \<longrightarrow> is_Exception y"
  show "fst (send_personal_message message websocket env m) = None"
  proof (cases "fst (send_personal_message message websocket env m)")
    case None
    then show ?thesis .
  next
    case (Some y)
    from send_personal_message_raises [OF Some] all show ?thesis by blast
  qed
  show "fst (send_user_message message u env m) = None"
  proof (cases "fst (send_user_message message u env m)")
    case None
    then show ?thesis .
  next
    case (Some y)
    from send_user_message_raises [OF Some] all show ?thesis by blast
  qed
qed

text \<open>
  The amended C10 on Alice's two connections: with the transport of socket 7 down, and
  no cancellation, neither operation raises.
\<close>

theorem sends_raise_nothing_witness:
  "send_raises (env_7_down 3) 7 = Some TransportError \<and>
   fst (send_personal_message (heartbeat_ack 3) 7 (env_7_down 3) alice_twice) = None \<and>
   fst (send_user_message (heartbeat_ack 3) 1 (env_7_down 3) alice_twice) = None"
proof -
  have h: "\<forall>w y. send_raises (env_7_down 3) w = Some y \<longrightarrow> is_Exception y"
    by (simp add: env_defs)
  have d: "send_raises (env_7_down 3) 7 = Some TransportError"
    by (simp add: env_defs)
  from h d sends_raise_nothing_of_Exception [of "heartbeat_ack 3" 7 "env_7_down 3" alice_twice
      CancelledError "[]" 1]
  show ?thesis by blast
qed

subsection \<open>C7: close codes\<close>

text \<open>
  C7, as stated: a missing token and a token that fails verification are rejected with
  two different close codes. Both are rejected with code 4001; only the reason differs.
\<close>

theorem close_codes_counterexample:
  "websocket_endpoint no_user None = Rejected 4001 ''Missing authentication token'' \<and>
   websocket_endpoint no_user (Some ''forged'') = Rejected 4001 ''Authentication failed''"
  by (simp add: websocket_endpoint_def get_current_user_def no_user_def)

text \<open>
  C7, amended: a handshake without a token, or with an empty one, is rejected with close
  code 4001 and the reason "Missing authentication token"; a handshake whose token fails
  verification is rejected with the same close code 4001 and the reason "Authentication
  failed"; every rejection of the handshake uses 4001, which lies in the range from
  4000; and every close of the heartbeat sweep uses code 1000, which differs from 4001.
\<close>

theorem close_codes:
  "websocket_endpoint verify_token None = Rejected 4001 ''Missing authentication token'' \<and>
   websocket_endpoint verify_token (Some []) =
     Rejected 4001 ''Missing authentication token'' \<and>
   (t \<noteq> [] \<and> verify_token t = None \<longrightarrow>
      websocket_endpoint verify_token (Some t) = Rejected 4001 ''Authentication failed'') \<and>
   (websocket_endpoint verify_token token = Rejected code reason \<longrightarrow>
      code = 4001 \<and> 4000 \<le> code) \<and>
   (Close w code' reason' \<in> set (snd (snd (cleanup_stale_connections interval env m))) \<longrightarrow>
      code' = 1000 \<and> code' \<noteq> 4001)"
proof (intro conjI impI)
  show "websocket_endpoint verify_token None = Rejected 4001 ''Missing authentication token''"
    by (simp add: websocket_endpoint_def)
  show "websocket_endpoint verify_token (Some []) =
      Rejected 4001 ''Missing authentication token''"
    by (simp add: websocket_endpoint_def)
  show "websocket_endpoint verify_token (Some t) = Rejected 4001 ''Authentication failed''"
    if "t \<noteq> [] \<and> verify_token t = None"
    using that by (simp add: websocket_endpoint_def get_current_user_def)
  show c: "code = 4001" if "websocket_endpoint verify_token token = Rejected code reason"
    using that by (auto simp: websocket_endpoint_def split: option.splits if_splits sum.splits)
  show "4000 \<le> code" if "websocket_endpoint verify_token token = Rejected code reason"
    using c [OF that] by simp
  assume "Close w code' reason' \<in> set (snd (snd (cleanup_stale_connections interval env m)))"
  then obtain cutoff where "Close w code' reason' \<in>
      set (snd (cleanup_loop (stale_connections cutoff m) m))"
    by (auto simp: cleanup_stale_connections_def split: sum.splits prod.splits)
  from cleanup_loop_events [OF this] have c': "code' = 1000" by auto
  then show "code' = 1000" .
  from c' show "code' \<noteq> 4001" by simp
qed

text \<open>The amended C7 on a forged token and on a sweep that evicts socket 7.\<close>

theorem close_codes_witness:
  "websocket_endpoint no_user (Some ''forged'') = Rejected 4001 ''Authentication failed'' \<and>
   Close 7 1000 ''Heartbeat timeout''
     \<in> set (snd (snd (cleanup_stale_connections 30 (env_at 62) alice_once)))"
proof -
  have a: "''forged'' \<noteq> [] \<and> no_user ''forged'' = None" by (simp add: no_user_def)
  have b: "Close 7 1000 ''Heartbeat timeout''
     \<in> set (snd (snd (cleanup_stale_connections 30 (env_at 62) alice_once)))"
    by (simp add: alice_once_eq cleanup_stale_connections_def cutoff_time_def
        double_overflow_def stale_connections_def env_defs)
  from close_codes [of no_user "''forged''" "Some ''forged''" 4001 "''Authentication failed''"
      7 1000 "''Heartbeat timeout''" 30 "env_at 62" alice_once] a b
  show ?thesis by simp
qed

subsection \<open>C8: disconnect is idempotent\<close>

text \<open>
  C8: for every manager and every socket, disconnecting the socket twice gives the same
  manager as disconnecting it once, and disconnecting a socket that the reverse lookup
  and the metadata do not know leaves the manager as it is. \<^const>\<open>disconnect\<close> has no
  raising path: it only looks up with defaults and deletes behind a membership test.
\<close>

theorem disconnect_idempotent:
  "disconnect w (disconnect w m) = disconnect w m \<and>
   (w \<notin> fst ` set (connection_users m) \<and> w \<notin> fst ` set (connection_metadata m)
      \<longrightarrow> disconnect w m = m)"
proof
  have "map_of (AList.delete w (connection_users m)) w = None"
    by (simp add: delete_conv')
  then show "disconnect w (disconnect w m) = disconnect w m"
    by (simp add: disconnect_def Let_def delete_idem)
next
  show "w \<notin> fst ` set (connection_users m) \<and> w \<notin> fst ` set (connection_metadata m)
      \<longrightarrow> disconnect w m = m"
  proof
    assume a: "w \<notin> fst ` set (connection_users m) \<and> w \<notin> fst ` set (connection_metadata m)"
    then have "map_of (connection_users m) w = None"
      by (simp add: map_of_eq_None_iff)
    with a show "disconnect w m = m"
      by (simp add: disconnect_def Let_def)
  qed
qed

text \<open>C8 on a socket that was never registered (9) and on a registered one (7).\<close>

theorem disconnect_idempotent_witness:
  "9 \<notin> fst ` set (connection_users alice_once) \<and>
   9 \<notin> fst ` set (connection_metadata alice_once) \<and>
   disconnect 9 alice_once = alice_once \<and>
   disconnect 7 (disconnect 7 alice_once) = disconnect 7 alice_once"
proof -
  have h: "9 \<notin> fst ` set (connection_users alice_once) \<and>
      9 \<notin> fst ` set (connection_metadata alice_once)"
    by (simp add: alice_once_eq)
  with disconnect_idempotent [of 9 alice_once] disconnect_idempotent [of 7 alice_once]
  show ?thesis by simp
qed

subsection \<open>C6: get_connected_users\<close>

text \<open>
  C6, as stated: the entry of a user carries the earliest \<^verbatim>\<open>connected_at\<close> and the
  latest \<^verbatim>\<open>last_heartbeat\<close> over the user's connections. The entry carries the metadata
  of one connection, the first that the iteration of the set yields. With Alice on
  socket 7 since time 1 and on socket 8 since time 2, the entry reports the heartbeat 1
  although socket 8 has heartbeat 2; were socket 8 iterated first, it would report the
  connect time 2 although socket 7 connected at 1.
\<close>

theorem connected_users_counterexample:
  "get_connected_users alice_twice =
     [\<lparr>cu_user_id = 1, cu_username = ''alice'', cu_role = REVIEWER, connection_count = 2,
       cu_connected_at = Some 1, cu_last_heartbeat = Some 1\<rparr>] \<and>
   8 \<in> set (conns_of alice_twice 1) \<and>
   map_option last_heartbeat (map_of (connection_metadata alice_twice) 8) = Some 2 \<and>
   get_connected_users alice_twice_rev =
     [\<lparr>cu_user_id = 1, cu_username = ''alice'', cu_role = REVIEWER, connection_count = 2,
       cu_connected_at = Some 2, cu_last_heartbeat = Some 2\<rparr>] \<and>
   7 \<in> set (conns_of alice_twice_rev 1) \<and>
   map_option connected_at (map_of (connection_metadata alice_twice_rev) 7) = Some 1"
  by (simp add: alice_twice_rev_def alice_twice_eq get_connected_users_def conns_of_def alice_def)

lemma connected_users_loop_entries:
  assumes us: "\<forall>(u, conns) \<in> set items. conns \<noteq> [] \<and>
         (\<forall>w \<in> set conns. map_option user_id (map_of (connection_users m) w) = Some u)"
    and md: "\<forall>w. map_of (connection_metadata m) w = None \<longleftrightarrow> map_of (connection_users m) w = None"
  shows "list_all2
     (\<lambda>(u, conns) e.
        cu_user_id e = u \<and> connection_count e = length conns \<and>
        (\<exists>usr md. map_of (connection_users m) (hd conns) = Some usr \<and>
           map_of (connection_metadata m) (hd conns) = Some md \<and>
           hd conns \<in> set conns \<and>
           cu_username e = username usr \<and> cu_role e = role usr \<and>
           cu_connected_at e = Some (connected_at md) \<and>
           cu_last_heartbeat e = Some (last_heartbeat md)))
     items (connected_users_loop items m)"
  using us
proof (induction items)
  case Nil
  show ?case by simp
next
  case (Cons item items)
  obtain u conns where item: "item = (u, conns)" by (cases item)
  with Cons.prems have ne: "conns \<noteq> []"
    and own: "\<forall>w \<in> set conns. map_option user_id (map_of (connection_users m) w) = Some u"
    by simp_all
  from ne obtain w rest where c: "conns = w # rest" by (cases conns) simp_all
  with own have "map_option user_id (map_of (connection_users m) w) = Some u" by simp
  then obtain usr where usr: "map_of (connection_users m) w = Some usr" "user_id usr = u"
    by (cases "map_of (connection_users m) w") simp_all
  with md obtain mdw where mdw: "map_of (connection_metadata m) w = Some mdw"
    by (cases "map_of (connection_metadata m) w") simp_all
  from Cons.prems have "\<forall>(u, conns) \<in> set items. conns \<noteq> [] \<and>
         (\<forall>w \<in> set conns. map_option user_id (map_of (connection_users m) w) = Some u)"
    by simp
  then have ih: "list_all2
     (\<lambda>(u, conns) e.
        cu_user_id e = u \<and> connection_count e = length conns \<and>
        (\<exists>usr md. map_of (connection_users m) (hd conns) = Some usr \<and>
           map_of (connection_metadata m) (hd conns) = Some md \<and>
           hd conns \<in> set conns \<and>
           cu_username e = username usr \<and> cu_role e = role usr \<and>
           cu_connected_at e = Some (connected_at md) \<and>
           cu_last_heartbeat e = Some (last_heartbeat md)))
     items (connected_users_loop items m)"
    by (rule Cons.IH)
  from item c usr mdw ih show ?case by simp
qed

text \<open>
  C6, amended: for every well-formed manager, \<^verbatim>\<open>get_connected_users\<close> returns exactly
  one entry per connected user, in the order of the users; the entry has the user's id,
  \<^verbatim>\<open>connection_count\<close> equal to the size of the user's connection set, and the
  username, role, \<^verbatim>\<open>connected_at\<close> and \<^verbatim>\<open>last_heartbeat\<close> recorded for one connection
  of that user, the first one of the set's iteration.
\<close>

theorem connected_users_summary:
  assumes "registry_wf m"
  shows "list_all2
     (\<lambda>(u, conns) e.
        cu_user_id e = u \<and> connection_count e = length conns \<and>
        (\<exists>usr md. map_of (connection_users m) (hd conns) = Some usr \<and>
           map_of (connection_metadata m) (hd conns) = Some md \<and>
           hd conns \<in> set conns \<and>
           cu_username e = username usr \<and> cu_role e = role usr \<and>
           cu_connected_at e = Some (connected_at md) \<and>
           cu_last_heartbeat e = Some (last_heartbeat md)))
     (active_connections m) (get_connected_users m)"
proof -
  from assms have us: "\<forall>(u, conns) \<in> set (active_connections m). conns \<noteq> [] \<and>
         (\<forall>w \<in> set conns. map_option user_id (map_of (connection_users m) w) = Some u)"
    unfolding registry_wf_def by blast
  from assms have md:
    "\<forall>w. map_of (connection_metadata m) w = None \<longleftrightarrow> map_of (connection_users m) w = None"
    unfolding registry_wf_alt by blast
  from us md show ?thesis
    unfolding get_connected_users_def by (rule connected_users_loop_entries)
qed

text \<open>The amended C6 on Alice with two connections.\<close>

theorem connected_users_summary_witness:
  "registry_wf alice_twice \<and>
   list_all2
     (\<lambda>(u, conns) e.
        cu_user_id e = u \<and> connection_count e = length conns \<and>
        (\<exists>usr md. map_of (connection_users alice_twice) (hd conns) = Some usr \<and>
           map_of (connection_metadata alice_twice) (hd conns) = Some md \<and>
           hd conns \<in> set conns \<and>
           cu_username e = username usr \<and> cu_role e = role usr \<and>
           cu_connected_at e = Some (connected_at md) \<and>
           cu_last_heartbeat e = Some (last_heartbeat md)))
     (active_connections alice_twice) (get_connected_users alice_twice)"
  using connected_users_summary [OF registry_wf_alice_twice] registry_wf_alice_twice
  by simp

subsection \<open>C4: the liveness sweep\<close>

text \<open>
  C4, as stated: a connection whose last heartbeat is at least twice the interval in the
  past is evicted. The comparison with the cutoff is strict: with an interval of 30
  seconds, socket 7 with its last heartbeat at time 1 is exactly 60 seconds old at time
  61, the cutoff is \<open>61 - 60 = 1\<close>, and the sweep leaves the manager as it is and
  closes nothing.
\<close>

theorem liveness_sweep_counterexample:
  "map_of (connection_metadata alice_once) 7 = Some \<lparr>connected_at = 1, last_heartbeat = 1\<rparr> \<and>
   now (env_at 61) - 1 = real_of_int (2 * 30) \<and>
   cutoff_time 30 (env_at 61) = Inr 1 \<and>
   cleanup_stale_connections 30 (env_at 61) alice_once = (None, alice_once, [])"
  by (simp add: alice_once_eq cleanup_stale_connections_def cutoff_time_def
      double_overflow_def stale_connections_def env_defs)

text \<open>
  C4, amended: on each sweep of a well-formed manager, when twice the interval converts
  to a float, the sweep raises nothing; every registered connection whose
  \<^verbatim>\<open>last_heartbeat\<close> timestamp is strictly below the cutoff, the float computed for the
  current timestamp minus twice the interval, is unregistered and a close with code 1000
  is issued on it; and every connection whose timestamp is at or above the cutoff is
  left untouched: its metadata, its reverse lookup and its membership in the connection
  sets are unchanged, and it is not closed. When twice the interval is outside the range
  of the floats, the sweep raises \<^verbatim>\<open>OverflowError\<close> and changes and closes nothing.
\<close>

theorem liveness_sweep:
  assumes wf: "registry_wf m"
    and run: "cleanup_stale_connections interval env m = (e, m', evs)"
    and reg: "map_of (connection_metadata m) w = Some md"
  shows
    "(double_overflow (interval * 2) \<longrightarrow> e = Some OverflowError \<and> m' = m \<and> evs = []) \<and>
     (\<not> double_overflow (interval * 2) \<longrightarrow>
        e = None \<and>
        (last_heartbeat md < float_sub env (now env) (interval * 2) \<longrightarrow>
           unregistered m' w \<and> Close w 1000 ''Heartbeat timeout'' \<in> set evs) \<and>
        (float_sub env (now env) (interval * 2) \<le> last_heartbeat md \<longrightarrow>
           map_of (connection_metadata m') w = Some md \<and>
           map_of (connection_users m') w = map_of (connection_users m) w \<and>
           (\<forall>u. w \<in> set (conns_of m' u) \<longleftrightarrow> w \<in> set (conns_of m u)) \<and>
           (\<forall>code reason. Close w code reason \<notin> set evs)))"
proof (cases "double_overflow (interval * 2)")
  case True
  with run show ?thesis
    by (simp add: cleanup_stale_connections_def cutoff_time_def)
next
  case False
  let ?cutoff = "float_sub env (now env) (interval * 2)"
  let ?stale = "stale_connections ?cutoff m"
  from False run have e: "e = None" and m': "m' = fst (cleanup_loop ?stale m)"
    and evs: "evs = snd (cleanup_loop ?stale m)"
    by (simp_all add: cleanup_stale_connections_def cutoff_time_def split: prod.splits)
  from wf have d: "distinct (map fst (connection_metadata m))"
    by (simp add: registry_wf_def)
  from reg have st: "w \<in> set ?stale \<longleftrightarrow> last_heartbeat md < ?cutoff"
    by (simp add: stale_connections_iff [OF d])
  have wf': "registry_wf m'" unfolding m' using wf by (rule registry_wf_cleanup_loop)
  have stale: "unregistered m' w \<and> Close w 1000 ''Heartbeat timeout'' \<in> set evs"
    if "last_heartbeat md < ?cutoff"
  proof -
    from that st have mem: "w \<in> set ?stale" by simp
    then have "map_of (connection_users m') w = None"
      unfolding m' by (simp add: cleanup_loop_users)
    with wf' have "unregistered m' w" by (rule registry_wf_unregistered)
    moreover from mem have "Close w 1000 ''Heartbeat timeout'' \<in> set evs"
      unfolding evs cleanup_loop_closes by simp
    ultimately show ?thesis by simp
  qed
  have fresh: "map_of (connection_metadata m') w = Some md \<and>
       map_of (connection_users m') w = map_of (connection_users m) w \<and>
       (\<forall>u. w \<in> set (conns_of m' u) \<longleftrightarrow> w \<in> set (conns_of m u)) \<and>
       (\<forall>code reason. Close w code reason \<notin> set evs)"
    if "?cutoff \<le> last_heartbeat md"
  proof -
    from that st have nm: "w \<notin> set ?stale" by simp
    then have "\<forall>code reason. Close w code reason \<notin> set evs"
      unfolding evs cleanup_loop_closes by auto
    with nm reg show ?thesis
      unfolding m' by (simp add: cleanup_loop_users cleanup_loop_metadata cleanup_loop_conns)
  qed
  from False e stale fresh show ?thesis by blast
qed

text \<open>
  The amended C4 on Alice's two connections, swept at time 62 with interval 30, cutoff
  2: socket 7 (heartbeat 1) is evicted, socket 8 (heartbeat 2) stays. With an interval
  of \<open>2 ^ 1024\<close> the sweep raises and the manager is as before.
\<close>

theorem liveness_sweep_witness:
  "registry_wf alice_twice \<and>
   map_of (connection_metadata alice_twice) 7 = Some \<lparr>connected_at = 1, last_heartbeat = 1\<rparr> \<and>
   map_of (connection_metadata alice_twice) 8 = Some \<lparr>connected_at = 2, last_heartbeat = 2\<rparr> \<and>
   \<not> double_overflow (30 * 2) \<and> float_sub (env_at 62) (now (env_at 62)) (30 * 2) = 2 \<and>
   unregistered (fst (snd (cleanup_stale_connections 30 (env_at 62) alice_twice))) 7 \<and>
   map_of (connection_metadata (fst (snd (cleanup_stale_connections 30 (env_at 62) alice_twice)))) 8
     = Some \<lparr>connected_at = 2, last_heartbeat = 2\<rparr> \<and>
   double_overflow (2 ^ 1024 * 2) \<and>
   cleanup_stale_connections (2 ^ 1024) (env_at 62) alice_twice =
     (Some OverflowError, alice_twice, [])"
proof -
  obtain e m' evs where run: "cleanup_stale_connections 30 (env_at 62) alice_twice = (e, m', evs)"
    by (cases "cleanup_stale_connections 30 (env_at 62) alice_twice") auto
  obtain e2 m2 evs2
    where run2: "cleanup_stale_connections (2 ^ 1024) (env_at 62) alice_twice = (e2, m2, evs2)"
    by (cases "cleanup_stale_connections (2 ^ 1024) (env_at 62) alice_twice") auto
  have r7: "map_of (connection_metadata alice_twice) 7 = Some \<lparr>connected_at = 1, last_heartbeat = 1\<rparr>"
    and r8: "map_of (connection_metadata alice_twice) 8 = Some \<lparr>connected_at = 2, last_heartbeat = 2\<rparr>"
    by (simp_all add: alice_twice_eq)
  have small: "\<not> double_overflow (30 * 2)" by (simp add: double_overflow_def)
  have big: "double_overflow (2 ^ 1024 * 2)" by (simp add: double_overflow_def)
  have cut: "float_sub (env_at 62) (now (env_at 62)) (30 * 2) = 2" by (simp add: env_defs)
  from liveness_sweep [OF registry_wf_alice_twice run r7] small cut
  have a: "unregistered m' 7" by simp
  from liveness_sweep [OF registry_wf_alice_twice run r8] small cut
  have b: "map_of (connection_metadata m') 8 = Some \<lparr>connected_at = 2, last_heartbeat = 2\<rparr>"
    by simp
  from liveness_sweep [OF registry_wf_alice_twice run2 r7] big
  have c: "e2 = Some OverflowError \<and> m2 = alice_twice \<and> evs2 = []" by simp
  from a b c r7 r8 run run2 small big cut registry_wf_alice_twice show ?thesis by simp
qed

subsection \<open>C2: a failed send\<close>

lemma try_send_events:
  "ev \<in> set (snd (try_send message w env)) \<Longrightarrow> \<exists>wm ok. ev = Send w wm ok"
  by (auto simp: try_send_def split: sum.splits option.splits)

lemma try_send_well_formed:
  "make_ws_message message (now env) = Inr wm \<Longrightarrow>
   snd (try_send message w env) = [Send w wm (send_raises env w = None)]"
  by (simp add: try_send_def split: option.splits)

lemma try_send_fails:
  assumes "send_raises env w = Some x" and "is_Exception x"
  shows "\<exists>e evs. try_send message w env = (Some e, evs) \<and> is_Exception e \<and>
     length evs \<le> 1 \<and> (\<forall>ev \<in> set evs. \<exists>wm. ev = Send w wm False)"
proof (cases "make_ws_message message (now env)")
  case (Inl e)
  then show ?thesis by (simp add: try_send_def make_ws_message_Exception)
next
  case (Inr wm)
  with assms show ?thesis by (simp add: try_send_def)
qed

lemma send_personal_message_snd:
  "snd (snd (send_personal_message message w env m)) = snd (try_send message w env)"
  by (simp add: send_personal_message_def split: prod.splits option.splits)

lemma send_user_loop_events_from:
  "ev \<in> set (fst (snd (snd (send_user_loop message conns env m)))) \<Longrightarrow>
   \<exists>w \<in> set conns. ev \<in> set (snd (try_send message w env))"
proof (induction conns arbitrary: m)
  case Nil
  then show ?case by simp
next
  case (Cons w rest)
  obtain e m1 evs1 where s: "send_personal_message message w env m = (e, m1, evs1)"
    by (cases "send_personal_message message w env m") auto
  with send_personal_message_snd [of message w env m]
  have ev1: "evs1 = snd (try_send message w env)" by simp
  obtain e2 m2 evs2 disc where r: "send_user_loop message rest env m1 = (e2, m2, evs2, disc)"
    by (cases "send_user_loop message rest env m1") auto
  from s r have "fst (snd (snd (send_user_loop message (w # rest) env m))) = evs1 \<or>
      fst (snd (snd (send_user_loop message (w # rest) env m))) = evs1 @ evs2"
    by (cases e) simp_all
  with Cons.prems have "ev \<in> set evs1 \<or> ev \<in> set evs2" by auto
  then show ?case
  proof
    assume "ev \<in> set evs1"
    with ev1 show ?thesis by simp
  next
    assume "ev \<in> set evs2"
    with r have "ev \<in> set (fst (snd (snd (send_user_loop message rest env m1))))" by simp
    from Cons.IH [OF this] show ?thesis by auto
  qed
qed

lemma send_user_message_events_from:
  assumes "ev \<in> set (snd (snd (send_user_message message u env m)))"
  shows "\<exists>w \<in> set (conns_of m u). ev \<in> set (snd (try_send message w env))"
proof (cases "map_of (active_connections m) u")
  case None
  with assms show ?thesis by (simp add: send_user_message_def)
next
  case (Some conns)
  obtain e m1 evs disc where r: "send_user_loop message conns env m = (e, m1, evs, disc)"
    by (cases "send_user_loop message conns env m") auto
  with Some assms have "ev \<in> set evs"
    by (cases e) (simp_all add: send_user_message_def)
  with r have "ev \<in> set (fst (snd (snd (send_user_loop message conns env m))))" by simp
  from send_user_loop_events_from [OF this] Some show ?thesis by (simp add: conns_of_def)
qed

lemma send_user_loop_events:
  assumes "\<forall>w y. send_raises env w = Some y \<longrightarrow> is_Exception y"
  shows "fst (send_user_loop message conns env m) = None \<and>
    fst (snd (snd (send_user_loop message conns env m))) =
      concat (map (\<lambda>w. snd (try_send message w env)) conns)"
proof (induction conns arbitrary: m)
  case Nil
  show ?case by simp
next
  case (Cons w rest)
  obtain e m1 evs1 where s: "send_personal_message message w env m = (e, m1, evs1)"
    by (cases "send_personal_message message w env m") auto
  with send_personal_message_snd [of message w env m]
  have ev: "evs1 = snd (try_send message w env)" by simp
  have e: "e = None"
  proof (cases e)
    case None
    then show ?thesis .
  next
    case (Some y)
    with s have "fst (send_personal_message message w env m) = Some y" by simp
    from send_personal_message_raises [OF this] assms show ?thesis by blast
  qed
  obtain e2 m2 evs2 disc where r: "send_user_loop message rest env m1 = (e2, m2, evs2, disc)"
    by (cases "send_user_loop message rest env m1") auto
  with Cons.IH [of m1] have "e2 = None"
    "evs2 = concat (map (\<lambda>w. snd (try_send message w env)) rest)"
    by simp_all
  with s r ev e show ?case by simp
qed

lemma send_user_message_events:
  assumes "\<forall>w y. send_raises env w = Some y \<longrightarrow> is_Exception y"
  shows "fst (send_user_message message u env m) = None \<and>
    snd (snd (send_user_message message u env m)) =
      concat (map (\<lambda>w. snd (try_send message w env)) (conns_of m u))"
proof (cases "map_of (active_connections m) u")
  case None
  then show ?thesis by (simp add: send_user_message_def conns_of_def)
next
  case (Some conns)
  obtain e m1 evs disc where r: "send_user_loop message conns env m = (e, m1, evs, disc)"
    by (cases "send_user_loop message conns env m") auto
  with send_user_loop_events [OF assms, of message conns m]
  have "e = None" "evs = concat (map (\<lambda>w. snd (try_send message w env)) conns)" by simp_all
  with Some r show ?thesis by (simp add: send_user_message_def conns_of_def)
qed

text \<open>
  C2, as stated: a connection whose send fails is unregistered and closed. The handler
  of \<^verbatim>\<open>send_personal_message\<close> calls \<^verbatim>\<open>disconnect\<close> only: with the write on socket 7
  failing, the socket leaves the three dictionaries and the only effect on it is the
  failed write; no \<^verbatim>\<open>close\<close> is issued.
\<close>

theorem failed_send_counterexample:
  "send_personal_message (heartbeat_ack 3) 7 (env_7_down 3) alice_twice =
     (None,
      \<lparr>active_connections = [(1, [8])],
       connection_users = [(8, alice)],
       connection_metadata = [(8, \<lparr>connected_at = 2, last_heartbeat = 2\<rparr>)]\<rparr>,
      [Send 7 \<lparr>msg_type = ''heartbeat_ack'', msg_data = [(''timestamp'', PTime 3)],
               msg_timestamp = 3\<rparr> False])"
  by (simp add: alice_twice_eq send_personal_message_def try_send_def make_ws_message_def
      heartbeat_ack_def env_defs disconnect_def discard_def alice_def)

text \<open>
  C2, amended: for every well-formed manager and every registered connection whose write
  fails with an exception of the \<^verbatim>\<open>Exception\<close> hierarchy, \<^verbatim>\<open>send_personal_message\<close>
  returns without an exception after at most one write attempt, which is the failed one
  on that connection; the connection is unregistered (it is not closed); every other
  connection keeps its reverse lookup, its metadata and its membership in the connection
  sets. Every later \<^verbatim>\<open>send_user_message\<close> for the owner makes no write attempt on the
  unregistered connection and lets no exception of the \<^verbatim>\<open>Exception\<close> hierarchy
  through; when no write of that later call raises outside the hierarchy (no
  cancellation), it returns without an exception and, for a well-formed message, writes
  to each of the owner's other connections.
\<close>

theorem failed_send_unregisters:
  assumes wf: "registry_wf m"
    and reg: "map_of (connection_users m) w = Some usr"
    and fail: "send_raises env w = Some x" "is_Exception x"
    and run: "send_personal_message message w env m = (e, m', evs)"
  shows "e = None \<and> unregistered m' w \<and>
    length evs \<le> 1 \<and> (\<forall>ev \<in> set evs. \<exists>wm. ev = Send w wm False) \<and>
    (\<forall>w'. w' \<noteq> w \<longrightarrow>
       map_of (connection_users m') w' = map_of (connection_users m) w' \<and>
       map_of (connection_metadata m') w' = map_of (connection_metadata m) w' \<and>
       (\<forall>u. w' \<in> set (conns_of m' u) \<longleftrightarrow> w' \<in> set (conns_of m u))) \<and>
    (\<forall>message' env'.
       (\<forall>wm ok. Send w wm ok
          \<notin> set (snd (snd (send_user_message message' (user_id usr) env' m')))) \<and>
       (\<forall>y. fst (send_user_message message' (user_id usr) env' m') = Some y \<longrightarrow>
          \<not> is_Exception y) \<and>
       ((\<forall>w' y. send_raises env' w' = Some y \<longrightarrow> is_Exception y) \<longrightarrow>
          fst (send_user_message message' (user_id usr) env' m') = None \<and>
          (\<forall>wm w'. make_ws_message message' (now env') = Inr wm \<and>
             w' \<in> set (conns_of m (user_id usr)) \<and> w' \<noteq> w \<longrightarrow>
             Send w' wm (send_raises env' w' = None)
               \<in> set (snd (snd (send_user_message message' (user_id usr) env' m'))))))"
proof -
  from try_send_fails [OF fail, of message] obtain e0 evs0
    where ts: "try_send message w env = (Some e0, evs0)" and ex: "is_Exception e0"
      and len: "length evs0 \<le> 1"
      and only: "\<forall>ev \<in> set evs0. \<exists>wm. ev = Send w wm False"
    by blast
  with run have e: "e = None" and m': "m' = disconnect w m" and evs: "evs = evs0"
    by (simp_all add: send_personal_message_def)
  have wf': "registry_wf m'" unfolding m' using wf by (rule registry_wf_disconnect)
  have "map_of (connection_users m') w = None"
    unfolding m' by (simp add: disconnect_users)
  with wf' have un: "unregistered m' w" by (rule registry_wf_unregistered)
  have others: "\<forall>w'. w' \<noteq> w \<longrightarrow>
       map_of (connection_users m') w' = map_of (connection_users m) w' \<and>
       map_of (connection_metadata m') w' = map_of (connection_metadata m) w' \<and>
       (\<forall>u. w' \<in> set (conns_of m' u) \<longleftrightarrow> w' \<in> set (conns_of m u))"
    unfolding m' by (simp add: disconnect_users disconnect_metadata conns_of_disconnect_other)
  have rest: "conns_of m' (user_id usr) = removeAll w (conns_of m (user_id usr))"
    unfolding m' using reg by (simp add: conns_of_disconnect)
  have later: "(\<forall>wm ok. Send w wm ok
          \<notin> set (snd (snd (send_user_message message' (user_id usr) env' m')))) \<and>
       (\<forall>y. fst (send_user_message message' (user_id usr) env' m') = Some y \<longrightarrow>
          \<not> is_Exception y) \<and>
       ((\<forall>w' y. send_raises env' w' = Some y \<longrightarrow> is_Exception y) \<longrightarrow>
          fst (send_user_message message' (user_id usr) env' m') = None \<and>
          (\<forall>wm w'. make_ws_message message' (now env') = Inr wm \<and>
             w' \<in> set (conns_of m (user_id usr)) \<and> w' \<noteq> w \<longrightarrow>
             Send w' wm (send_raises env' w' = None)
               \<in> set (snd (snd (send_user_message message' (user_id usr) env' m')))))"
    for message' env'
  proof (intro conjI allI impI)
    show "Send w wm ok \<notin> set (snd (snd (send_user_message message' (user_id usr) env' m')))"
      for wm ok
    proof
      assume "Send w wm ok \<in> set (snd (snd (send_user_message message' (user_id usr) env' m')))"
      from send_user_message_events_from [OF this] obtain w'
        where w': "w' \<in> set (removeAll w (conns_of m (user_id usr)))"
        and ev: "Send w wm ok \<in> set (snd (try_send message' w' env'))"
        unfolding rest by blast
      from try_send_events [OF ev] have "w' = w" by auto
      with w' show False by simp
    qed
    show "\<not> is_Exception y"
      if "fst (send_user_message message' (user_id usr) env' m') = Some y" for y
      using send_user_message_raises [OF that] by simp
    assume all: "\<forall>w' y. send_raises env' w' = Some y \<longrightarrow> is_Exception y"
    note evs' = send_user_message_events [OF all, of message' "user_id usr" m']
    from evs' show "fst (send_user_message message' (user_id usr) env' m') = None" by simp
    show "Send w' wm (send_raises env' w' = None)
            \<in> set (snd (snd (send_user_message message' (user_id usr) env' m')))"
      if h: "make_ws_message message' (now env') = Inr wm \<and>
          w' \<in> set (conns_of m (user_id usr)) \<and> w' \<noteq> w" for wm w'
    proof -
      from h have "w' \<in> set (removeAll w (conns_of m (user_id usr)))" by simp
      moreover from h have "snd (try_send message' w' env') =
          [Send w' wm (send_raises env' w' = None)]"
        by (simp add: try_send_well_formed)
      ultimately show ?thesis
        using evs' unfolding rest by force
    qed
  qed
  from e un len only others later show ?thesis
    unfolding evs by blast
qed

text \<open>
  The amended C2 on Alice's two connections: the write on socket 7 fails at time 3, and
  a message to Alice at time 4 reaches socket 8.
\<close>

theorem failed_send_witness:
  "registry_wf alice_twice \<and> map_of (connection_users alice_twice) 7 = Some alice \<and>
   send_raises (env_7_down 3) 7 = Some TransportError \<and> is_Exception TransportError \<and>
   unregistered (fst (snd (send_personal_message (heartbeat_ack 3) 7 (env_7_down 3) alice_twice))) 7 \<and>
   Send 8 \<lparr>msg_type = ''heartbeat_ack'', msg_data = [(''timestamp'', PTime 4)],
           msg_timestamp = 4\<rparr> True
     \<in> set (snd (snd (send_user_message (heartbeat_ack 4) 1 (env_7_down 4)
          (fst (snd (send_personal_message (heartbeat_ack 3) 7 (env_7_down 3) alice_twice))))))"
proof -
  obtain e m' evs
    where run: "send_personal_message (heartbeat_ack 3) 7 (env_7_down 3) alice_twice = (e, m', evs)"
    by (cases "send_personal_message (heartbeat_ack 3) 7 (env_7_down 3) alice_twice") auto
  have reg: "map_of (connection_users alice_twice) 7 = Some alice"
    by (simp add: alice_twice_eq)
  have fail: "send_raises (env_7_down 3) 7 = Some TransportError" "is_Exception TransportError"
    by (simp_all add: env_defs)
  have all: "\<forall>w' y. send_raises (env_7_down 4) w' = Some y \<longrightarrow> is_Exception y"
    by (simp add: env_defs)
  have mk: "make_ws_message (heartbeat_ack 4) (now (env_7_down 4)) =
      Inr \<lparr>msg_type = ''heartbeat_ack'', msg_data = [(''timestamp'', PTime 4)],
           msg_timestamp = 4\<rparr>"
    by (simp add: make_ws_message_def heartbeat_ack_def env_defs)
  have mem: "8 \<in> set (conns_of alice_twice (user_id alice))"
    by (simp add: alice_twice_eq conns_of_def alice_def)
  have ok: "send_raises (env_7_down 4) 8 = None" by (simp add: env_defs)
  note t = failed_send_unregisters [OF registry_wf_alice_twice reg fail run]
  from t have un: "unregistered m' 7" by blast
  from t all mk mem
  have "Send 8 \<lparr>msg_type = ''heartbeat_ack'', msg_data = [(''timestamp'', PTime 4)],
           msg_timestamp = 4\<rparr> (send_raises (env_7_down 4) 8 = None)
     \<in> set (snd (snd (send_user_message (heartbeat_ack 4) (user_id alice) (env_7_down 4) m')))"
    by force
  with ok have "Send 8 \<lparr>msg_type = ''heartbeat_ack'', msg_data = [(''timestamp'', PTime 4)],
           msg_timestamp = 4\<rparr> True
     \<in> set (snd (snd (send_user_message (heartbeat_ack 4) 1 (env_7_down 4) m')))"
    by (simp add: alice_def)
  with un run reg fail registry_wf_alice_twice show ?thesis by simp
qed

subsection \<open>C3: role routing\<close>

lemma send_personal_message_ok:
  assumes "make_ws_message message (now env) = Inr wm" and "send_raises env w = None"
  shows "send_personal_message message w env m = (None, m, [Send w wm True])"
  using assms by (simp add: send_personal_message_def try_send_def)

lemma send_user_loop_ok:
  assumes "make_ws_message message (now env) = Inr wm" and "\<forall>w. send_raises env w = None"
  shows "send_user_loop message conns env m =
    (None, m, map (\<lambda>w. Send w wm True) conns, [])"
  using assms by (induction conns) (simp_all add: send_personal_message_ok)

lemma send_user_message_ok:
  assumes "make_ws_message message (now env) = Inr wm" and "\<forall>w. send_raises env w = None"
  shows "send_user_message message u env m =
    (None, m, map (\<lambda>w. Send w wm True) (conns_of m u))"
  using assms
  by (simp add: send_user_message_def conns_of_def send_user_loop_ok split: option.splits)

lemma conns_of_nth:
  assumes "distinct (map fst (active_connections m))" and "i < length (active_connections m)"
  shows "conns_of m (fst (active_connections m ! i)) = snd (active_connections m ! i)"
proof -
  from assms(2) have "active_connections m ! i \<in> set (active_connections m)" by simp
  then have "(fst (active_connections m ! i), snd (active_connections m ! i))
      \<in> set (active_connections m)" by simp
  with assms(1) have "map_of (active_connections m) (fst (active_connections m ! i)) =
      Some (snd (active_connections m ! i))"
    by (rule map_of_is_SomeI)
  then show ?thesis by (simp add: conns_of_def)
qed

lemma send_role_loop_ok:
  assumes mk: "make_ws_message message (now env) = Inr wm" and ok: "\<forall>w. send_raises env w = None"
    and d: "distinct (map fst (active_connections m))"
    and "\<forall>i \<in> set positions. i < length (active_connections m)"
  shows "send_role_loop positions (length (active_connections m)) message r env m =
    (None, m, concat (map (\<lambda>i. entry_events m wm r (active_connections m ! i)) positions))"
  using assms(4)
proof (induction positions)
  case Nil
  show ?case by simp
next
  case (Cons i rest)
  then have i: "i < length (active_connections m)"
    and ih: "send_role_loop rest (length (active_connections m)) message r env m =
      (None, m, concat (map (\<lambda>i. entry_events m wm r (active_connections m ! i)) rest))"
    by simp_all
  from ih show ?case
    by (simp add: entry_events_def send_user_message_ok [OF mk ok] conns_of_nth [OF d i]
        split: list.splits option.splits)
qed

lemma send_role_message_ok:
  assumes mk: "make_ws_message message (now env) = Inr wm" and ok: "\<forall>w. send_raises env w = None"
    and d: "distinct (map fst (active_connections m))"
  shows "send_role_message message r env m =
    (None, m, concat (map (entry_events m wm r) (active_connections m)))"
proof -
  have "map (\<lambda>i. entry_events m wm r (active_connections m ! i))
      [0..<length (active_connections m)] = map (entry_events m wm r) (active_connections m)"
    by (rule nth_equalityI) simp_all
  then show ?thesis
    unfolding send_role_message_def
    using send_role_loop_ok [OF mk ok d, of "[0..<length (active_connections m)]" r]
    by simp
qed

lemma entry_events_iff:
  assumes wf: "registry_wf m" and co: "roles_coherent m"
  shows "Send w wm' ok \<in> set (concat (map (entry_events m wm r) (active_connections m))) \<longleftrightarrow>
    wm' = wm \<and> ok \<and>
    (\<exists>usr. map_of (connection_users m) w = Some usr \<and> role_value (role usr) = r)"
    (is "?L \<longleftrightarrow> ?R")
proof
  assume ?L
  then obtain item where item: "item \<in> set (active_connections m)"
    and ev: "Send w wm' ok \<in> set (entry_events m wm r item)" by auto
  obtain u conns where uc: "item = (u, conns)" by (cases item)
  from ev uc have ne: "conns \<noteq> []" by (auto simp: entry_events_def)
  then obtain w0 rest where c: "conns = w0 # rest" by (cases conns) simp_all
  have "map_of (connection_users m) w0 \<noteq> None"
  proof
    assume "map_of (connection_users m) w0 = None"
    with ev uc c show False by (simp add: entry_events_def)
  qed
  then obtain usr0 where u0: "map_of (connection_users m) w0 = Some usr0" by blast
  have r0: "role_value (role usr0) = r"
  proof (rule ccontr)
    assume "role_value (role usr0) \<noteq> r"
    with ev uc c u0 show False by (simp add: entry_events_def)
  qed
  from ev uc c u0 r0 have mem: "Send w wm' ok \<in> set (map (\<lambda>w. Send w wm True) conns)"
    by (simp add: entry_events_def)
  from mem have w: "w \<in> set conns" and eq: "wm' = wm" "ok" by auto
  from wf item uc w have "map_option user_id (map_of (connection_users m) w) = Some u"
    unfolding registry_wf_def by blast
  then obtain usr where usr: "map_of (connection_users m) w = Some usr"
    by (cases "map_of (connection_users m) w") simp_all
  from co item uc w c have "map_option role (map_of (connection_users m) w) =
      map_option role (map_of (connection_users m) w0)"
    unfolding roles_coherent_def by fastforce
  with usr u0 have "role usr = role usr0" by simp
  with usr r0 eq show ?R by simp
next
  assume r: ?R
  then obtain usr where usr: "map_of (connection_users m) w = Some usr"
    and ru: "role_value (role usr) = r" and eq: "wm' = wm" "ok" by blast
  from wf usr have "w \<in> set (conns_of m (user_id usr))"
    unfolding registry_wf_alt by blast
  then obtain conns where c: "map_of (active_connections m) (user_id usr) = Some conns"
    and w: "w \<in> set conns"
    by (cases "map_of (active_connections m) (user_id usr)") (simp_all add: conns_of_def)
  from c have item: "(user_id usr, conns) \<in> set (active_connections m)" by (rule map_of_SomeD)
  from w obtain w0 rest where c0: "conns = w0 # rest" by (cases conns) simp_all
  from wf item c0 have "map_option user_id (map_of (connection_users m) w0) = Some (user_id usr)"
    unfolding registry_wf_def by fastforce
  then obtain usr0 where u0: "map_of (connection_users m) w0 = Some usr0"
    by (cases "map_of (connection_users m) w0") simp_all
  from co item w c0 have "map_option role (map_of (connection_users m) w) =
      map_option role (map_of (connection_users m) w0)"
    unfolding roles_coherent_def by fastforce
  with usr u0 have "role usr0 = role usr" by simp
  with ru u0 c0 w eq have "Send w wm' ok \<in> set (entry_events m wm r (user_id usr, conns))"
    by (simp add: entry_events_def image_iff)
  with item show ?L by auto
qed

lemma new_detection_well_formed:
  "make_ws_message (new_detection d a c t) t =
     Inr \<lparr>msg_type = ''new_detection'',
          msg_data = [(''detection_id'', PUuid d), (''is_anomaly'', PBool a),
                      (''confidence'', PFloat c), (''timestamp'', PTime t)],
          msg_timestamp = t\<rparr>"
  by (simp add: make_ws_message_def new_detection_def)

text \<open>
  When every write goes through, \<^verbatim>\<open>notify_new_detection\<close> returns normally, leaves the
  manager as it is, and writes the \<^verbatim>\<open>new_detection\<close> envelope to exactly the sockets of
  reviewers and admins.
\<close>

lemma role_routing_when_writes_succeed:
  assumes wf: "registry_wf m" and co: "roles_coherent m" and ok: "\<forall>w. send_raises env w = None"
  shows "\<exists>evs. notify_new_detection d a c env m = (None, m, evs) \<and>
    (\<forall>w wm' ok'. Send w wm' ok' \<in> set evs \<longleftrightarrow>
       wm' = \<lparr>msg_type = ''new_detection'',
              msg_data = [(''detection_id'', PUuid d), (''is_anomaly'', PBool a),
                          (''confidence'', PFloat c), (''timestamp'', PTime (now env))],
              msg_timestamp = now env\<rparr> \<and> ok' \<and>
       (\<exists>usr. map_of (connection_users m) w = Some usr \<and>
          (role usr = REVIEWER \<or> role usr = ADMIN)))"
proof -
  let ?wm = "\<lparr>msg_type = ''new_detection'',
              msg_data = [(''detection_id'', PUuid d), (''is_anomaly'', PBool a),
                          (''confidence'', PFloat c), (''timestamp'', PTime (now env))],
              msg_timestamp = now env\<rparr>"
  let ?evs = "concat (map (entry_events m ?wm ''reviewer'') (active_connections m)) @
              concat (map (entry_events m ?wm ''admin'') (active_connections m))"
  from wf have d: "distinct (map fst (active_connections m))" by (simp add: registry_wf_def)
  note rm = send_role_message_ok [OF new_detection_well_formed ok d]
  have run: "notify_new_detection d a c env m = (None, m, ?evs)"
    by (simp add: notify_new_detection_def Let_def rm)
  have rv: "role_value x = ''reviewer'' \<longleftrightarrow> x = REVIEWER"
    "role_value x = ''admin'' \<longleftrightarrow> x = ADMIN" for x
    by (cases x; simp)+
  have "Send w wm' ok' \<in> set ?evs \<longleftrightarrow>
       wm' = ?wm \<and> ok' \<and>
       (\<exists>usr. map_of (connection_users m) w = Some usr \<and>
          (role usr = REVIEWER \<or> role usr = ADMIN))" for w wm' ok'
    unfolding set_append Un_iff entry_events_iff [OF wf co] rv by blast
  with run show ?thesis by blast
qed

text \<open>
  C3: \<^verbatim>\<open>notify_new_detection\<close> reaches every connection of every reviewer and admin.
  Here Alice (socket 7) and Bob (socket 8) are both reviewers and the write on socket 7
  fails. \<^verbatim>\<open>send_role_message\<close> walks the live dictionary; the failed write unregisters
  socket 7, Alice's entry is deleted, and the next step of the iteration raises
  \<^verbatim>\<open>RuntimeError\<close>: nothing is written to Bob's socket 8, the pass for the admins does
  not run, and the exception leaves \<^verbatim>\<open>notify_new_detection\<close>. On the same input
  \<^verbatim>\<open>notify_review_completed\<close>, whose \<^verbatim>\<open>broadcast_message\<close> iterates a copy of the keys,
  returns normally and does write to socket 8.
\<close>

theorem role_routing_failure:
  "notify_new_detection 5 True (9 / 10) (env_7_down 3) alice_and_bob =
     (Some (RuntimeError ''dictionary changed size during iteration''),
      \<lparr>active_connections = [(2, [8])],
       connection_users = [(8, bob)],
       connection_metadata = [(8, \<lparr>connected_at = 2, last_heartbeat = 2\<rparr>)]\<rparr>,
      [Send 7 \<lparr>msg_type = ''new_detection'',
               msg_data = [(''detection_id'', PUuid 5), (''is_anomaly'', PBool True),
                           (''confidence'', PFloat (9 / 10)), (''timestamp'', PTime 3)],
               msg_timestamp = 3\<rparr> False]) \<and>
   notify_review_completed 6 5 ''true_positive'' (env_7_down 3) alice_and_bob =
     (None,
      \<lparr>active_connections = [(2, [8])],
       connection_users = [(8, bob)],
       connection_metadata = [(8, \<lparr>connected_at = 2, last_heartbeat = 2\<rparr>)]\<rparr>,
      [Send 7 \<lparr>msg_type = ''review_completed'',
               msg_data = [(''review_id'', PUuid 6), (''detection_id'', PUuid 5),
                           (''verdict'', PStr ''true_positive''), (''timestamp'', PTime 3)],
               msg_timestamp = 3\<rparr> False,
       Send 8 \<lparr>msg_type = ''review_completed'',
               msg_data = [(''review_id'', PUuid 6), (''detection_id'', PUuid 5),
                           (''verdict'', PStr ''true_positive''), (''timestamp'', PTime 3)],
               msg_timestamp = 3\<rparr> True])"
  by (simp add: alice_and_bob_eq notify_new_detection_def notify_review_completed_def
      send_role_message_def broadcast_message_def send_user_message_def
      send_personal_message_def try_send_def make_ws_message_def new_detection_def
      review_completed_def env_defs disconnect_def discard_def
      alice_def bob_def upt_rec)

end
